theory Spec2Isabelle
  imports Main "HOL-Library.Word" "HOL-Library.Signed_Division"
begin

unbundle bit_operations_syntax

section \<open>Time and durations\<close>

text \<open>
  A reading of the clock (Go's \<^verbatim>\<open>time.Time\<close>) is an integer count of nanoseconds.
  A \<^verbatim>\<open>time.Duration\<close> is an \<^verbatim>\<open>int64\<close> count of nanoseconds: a 64-bit word, read as
  two's complement by \<open>sint\<close>. \<^verbatim>\<open>t.Sub(u)\<close> and \<^verbatim>\<open>time.Since(u)\<close> (which is
  \<^verbatim>\<open>time.Now().Sub(u)\<close>) compute \<open>t - u\<close> and saturate at the largest and the smallest
  duration instead of wrapping around.
\<close>

type_synonym Time = int
type_synonym Duration = "64 word"

definition maxDuration :: int where
  "maxDuration = 2 ^ 63 - 1"

definition minDuration :: int where
  "minDuration = - (2 ^ 63)"

definition time_Sub :: "Time \<Rightarrow> Time \<Rightarrow> Duration" where
  "time_Sub t u =
     (let d = t - u
      in if d > maxDuration then word_of_int maxDuration
         else if d < minDuration then word_of_int minDuration
         else word_of_int d)"

definition time_Since :: "Time \<Rightarrow> Time \<Rightarrow> Duration" where
  "time_Since now u = time_Sub now u"

section \<open>Faults\<close>

text \<open>
  The ways the Go runtime aborts the operations modelled here: closing a channel that is
  already closed panics, and \<^verbatim>\<open>sync.Mutex.Unlock\<close> on a mutex that is not locked is a fatal
  runtime error.
\<close>

datatype fault = CloseOfClosedChannel | UnlockOfUnlockedMutex

section \<open>The TTL cache (pkg/cache/cache.go)\<close>

text \<open>
  The balance is a \<^verbatim>\<open>float64\<close> that the cache, the lock registry and the balance service
  only store and hand on; no arithmetic is done on it. It is a type parameter with a zero
  (Go's zero value, returned beside \<^verbatim>\<open>found = false\<close>). The channel \<^verbatim>\<open>stopCh\<close> carries no
  values and is only ever closed: the model keeps whether it has been closed. The
  \<^verbatim>\<open>sync.RWMutex\<close> of the cache makes every method one atomic step; it has no other effect
  and is not a field of the model.
\<close>

record 'b CacheEntry =
  Balance :: 'b
  Timestamp :: Time

record 'b Cache =
  data :: "string \<rightharpoonup> 'b CacheEntry"
  ttl :: Duration
  stopCh :: bool

definition Cache_New :: "Duration \<Rightarrow> 'b Cache" where
  "Cache_New d = \<lparr>data = Map.empty, ttl = d, stopCh = False\<rparr>"

definition Cache_Get :: "('b::zero) Cache \<Rightarrow> string \<Rightarrow> Time \<Rightarrow> 'b \<times> bool" where
  "Cache_Get c key now =
     (case data c key of
        None \<Rightarrow> (0, False)
      | Some entry \<Rightarrow>
          if ttl c <s time_Since now (Timestamp entry) then (0, False)
          else (Balance entry, True))"

definition Cache_Set :: "'b Cache \<Rightarrow> string \<Rightarrow> 'b \<Rightarrow> Time \<Rightarrow> 'b Cache" where
  "Cache_Set c key balance now =
     c\<lparr>data := (data c)(key \<mapsto> \<lparr>Balance = balance, Timestamp = now\<rparr>)\<rparr>"

definition Cache_Delete :: "'b Cache \<Rightarrow> string \<Rightarrow> 'b Cache" where
  "Cache_Delete c key = c\<lparr>data := (data c)(key := None)\<rparr>"

definition Cache_Clear :: "'b Cache \<Rightarrow> 'b Cache" where
  "Cache_Clear c = c\<lparr>data := Map.empty\<rparr>"

text \<open>
  \<^verbatim>\<open>removeExpired\<close> ranges over the map and deletes every entry whose age, taken against one
  reading \<open>now\<close> of the clock, exceeds the TTL. Deleting during a \<^verbatim>\<open>range\<close> is allowed in Go
  and the test of one entry does not depend on the others, so the loop is the pointwise
  filter of the map.
\<close>

definition removeExpired :: "'b Cache \<Rightarrow> Time \<Rightarrow> 'b Cache" where
  "removeExpired c now =
     c\<lparr>data := (\<lambda>key. case data c key of
                        None \<Rightarrow> None
                      | Some entry \<Rightarrow>
                          if ttl c <s time_Sub now (Timestamp entry) then None
                          else Some entry)\<rparr>"

definition Cache_Stop :: "'b Cache \<Rightarrow> fault + 'b Cache" where
  "Cache_Stop c = (if stopCh c then Inl CloseOfClosedChannel else Inr (c\<lparr>stopCh := True\<rparr>))"

section \<open>The metrics collector (pkg/metrics/metrics.go)\<close>

text \<open>
  Every counter is an \<^verbatim>\<open>int64\<close> changed by \<^verbatim>\<open>atomic.AddInt64\<close> and
  \<^verbatim>\<open>atomic.StoreInt64\<close>: a 64-bit word whose addition wraps around. The derived fields are
  durations, also \<^verbatim>\<open>int64\<close>. Go's integer division truncates towards zero. The mutex of the
  record makes the update of the derived fields atomic and is not a field of the model.
\<close>

record Metrics =
  TotalRequests :: "64 word"
  SuccessfulRequests :: "64 word"
  FailedRequests :: "64 word"
  AverageResponseTime :: Duration
  MinResponseTime :: Duration
  MaxResponseTime :: Duration
  CacheHits :: "64 word"
  CacheMisses :: "64 word"
  RPCCalls :: "64 word"
  RPCFailures :: "64 word"
  AverageRPCTime :: Duration
  ActiveRequests :: "64 word"
  MutexWaits :: "64 word"
  totalResponseTime :: Duration
  totalRPCTime :: Duration

record MetricsCollector =
  metrics :: Metrics
  startTime :: Time

definition div64 :: "64 word \<Rightarrow> 64 word \<Rightarrow> 64 word" where
  "div64 a b = word_of_int (sint a sdiv sint b)"

definition NewMetricsCollector :: "Time \<Rightarrow> MetricsCollector" where
  "NewMetricsCollector now =
     \<lparr>metrics =
        \<lparr>TotalRequests = 0, SuccessfulRequests = 0, FailedRequests = 0,
         AverageResponseTime = 0, MinResponseTime = drop_bit 1 (NOT 0), MaxResponseTime = 0,
         CacheHits = 0, CacheMisses = 0, RPCCalls = 0, RPCFailures = 0, AverageRPCTime = 0,
         ActiveRequests = 0, MutexWaits = 0, totalResponseTime = 0, totalRPCTime = 0\<rparr>,
      startTime = now\<rparr>"

definition RecordRequest :: "MetricsCollector \<Rightarrow> MetricsCollector" where
  "RecordRequest mc =
     mc\<lparr>metrics := (metrics mc)
       \<lparr>TotalRequests := TotalRequests (metrics mc) + 1,
        ActiveRequests := ActiveRequests (metrics mc) + 1\<rparr>\<rparr>"

definition RecordRequestComplete :: "MetricsCollector \<Rightarrow> Duration \<Rightarrow> bool \<Rightarrow> MetricsCollector" where
  "RecordRequestComplete mc duration success =
     (let m0 = metrics mc;
          m1 = m0\<lparr>ActiveRequests := ActiveRequests m0 + (- 1)\<rparr>;
          m2 = (if success then m1\<lparr>SuccessfulRequests := SuccessfulRequests m1 + 1\<rparr>
                else m1\<lparr>FailedRequests := FailedRequests m1 + 1\<rparr>);
          m3 = m2\<lparr>totalResponseTime := totalResponseTime m2 + duration\<rparr>;
          m4 = (if duration <s MinResponseTime m3 then m3\<lparr>MinResponseTime := duration\<rparr> else m3);
          m5 = (if MaxResponseTime m4 <s duration then m4\<lparr>MaxResponseTime := duration\<rparr> else m4);
          totalRequests = TotalRequests m5;
          m6 = (if 0 <s totalRequests
                then m5\<lparr>AverageResponseTime := div64 (totalResponseTime m5) totalRequests\<rparr>
                else m5)
      in mc\<lparr>metrics := m6\<rparr>)"

definition RecordCacheHit :: "MetricsCollector \<Rightarrow> MetricsCollector" where
  "RecordCacheHit mc = mc\<lparr>metrics := (metrics mc)\<lparr>CacheHits := CacheHits (metrics mc) + 1\<rparr>\<rparr>"

definition RecordCacheMiss :: "MetricsCollector \<Rightarrow> MetricsCollector" where
  "RecordCacheMiss mc = mc\<lparr>metrics := (metrics mc)\<lparr>CacheMisses := CacheMisses (metrics mc) + 1\<rparr>\<rparr>"

definition RecordRPCCall :: "MetricsCollector \<Rightarrow> Duration \<Rightarrow> bool \<Rightarrow> MetricsCollector" where
  "RecordRPCCall mc duration success =
     (let m0 = metrics mc;
          m1 = m0\<lparr>RPCCalls := RPCCalls m0 + 1\<rparr>;
          m2 = (if \<not> success then m1\<lparr>RPCFailures := RPCFailures m1 + 1\<rparr> else m1);
          m3 = m2\<lparr>totalRPCTime := totalRPCTime m2 + duration\<rparr>;
          totalRPCCalls = RPCCalls m3;
          m4 = (if 0 <s totalRPCCalls
                then m3\<lparr>AverageRPCTime := div64 (totalRPCTime m3) totalRPCCalls\<rparr>
                else m3)
      in mc\<lparr>metrics := m4\<rparr>)"

definition RecordMutexWait :: "MetricsCollector \<Rightarrow> MetricsCollector" where
  "RecordMutexWait mc = mc\<lparr>metrics := (metrics mc)\<lparr>MutexWaits := MutexWaits (metrics mc) + 1\<rparr>\<rparr>"

definition Reset :: "MetricsCollector \<Rightarrow> Time \<Rightarrow> MetricsCollector" where
  "Reset mc now =
     \<lparr>metrics = (metrics mc)
        \<lparr>TotalRequests := 0, SuccessfulRequests := 0, FailedRequests := 0,
         CacheHits := 0, CacheMisses := 0, RPCCalls := 0, RPCFailures := 0,
         ActiveRequests := 0, MutexWaits := 0,
         AverageResponseTime := 0, MinResponseTime := drop_bit 1 (NOT 0), MaxResponseTime := 0,
         AverageRPCTime := 0, totalResponseTime := 0, totalRPCTime := 0\<rparr>,
      startTime = now\<rparr>"

text \<open>
  The recording operations as one type, to speak of all of them at once, and the seven
  counters of the snapshot in the order \<^verbatim>\<open>TotalRequests\<close>, \<^verbatim>\<open>SuccessfulRequests\<close>,
  \<^verbatim>\<open>FailedRequests\<close>, \<^verbatim>\<open>CacheHits\<close>, \<^verbatim>\<open>CacheMisses\<close>, \<^verbatim>\<open>RPCCalls\<close>, \<^verbatim>\<open>RPCFailures\<close>.
\<close>

datatype recording =
    OpRecordRequest
  | OpRecordRequestComplete Duration bool
  | OpRecordCacheHit
  | OpRecordCacheMiss
  | OpRecordRPCCall Duration bool
  | OpRecordMutexWait

fun record_op :: "recording \<Rightarrow> MetricsCollector \<Rightarrow> MetricsCollector" where
  "record_op OpRecordRequest mc = RecordRequest mc"
| "record_op (OpRecordRequestComplete d ok) mc = RecordRequestComplete mc d ok"
| "record_op OpRecordCacheHit mc = RecordCacheHit mc"
| "record_op OpRecordCacheMiss mc = RecordCacheMiss mc"
| "record_op (OpRecordRPCCall d ok) mc = RecordRPCCall mc d ok"
| "record_op OpRecordMutexWait mc = RecordMutexWait mc"

definition counters :: "MetricsCollector \<Rightarrow> int list" where
  "counters mc =
     (let m = metrics mc
      in [sint (TotalRequests m), sint (SuccessfulRequests m), sint (FailedRequests m),
          sint (CacheHits m), sint (CacheMisses m), sint (RPCCalls m), sint (RPCFailures m)])"

definition maxInt64 :: int where
  "maxInt64 = 2 ^ 63 - 1"

section \<open>The per-address lock registry (pkg/mutex/mutex.go)\<close>

text \<open>
  \<^verbatim>\<open>GetMutex\<close> hands out a pointer to the \<^verbatim>\<open>sync.Mutex\<close> of an entry, and the caller locks
  and unlocks through that pointer, not through the registry. The mutexes therefore live in
  a store of their own: an address is a natural number, the store says which addresses are
  locked, and \<^verbatim>\<open>&sync.Mutex{}\<close> takes the next free address and initialises it unlocked.
  \<^verbatim>\<open>Lock\<close> on a locked mutex blocks: it has no result (\<open>None\<close>) until the mutex is free.
  \<^verbatim>\<open>Unlock\<close> on a mutex that is not locked is the fatal error
  \<^verbatim>\<open>sync: unlock of unlocked mutex\<close>.
\<close>

record MutexHeap =
  locked :: "nat \<Rightarrow> bool"
  nextMutex :: nat

definition Mutex_new :: "MutexHeap \<Rightarrow> nat \<times> MutexHeap" where
  "Mutex_new h =
     (nextMutex h, h\<lparr>locked := (locked h)(nextMutex h := False), nextMutex := Suc (nextMutex h)\<rparr>)"

definition Mutex_Lock :: "MutexHeap \<Rightarrow> nat \<Rightarrow> MutexHeap option" where
  "Mutex_Lock h p = (if locked h p then None else Some (h\<lparr>locked := (locked h)(p := True)\<rparr>))"

definition Mutex_TryLock :: "MutexHeap \<Rightarrow> nat \<Rightarrow> bool \<times> MutexHeap" where
  "Mutex_TryLock h p =
     (if locked h p then (False, h) else (True, h\<lparr>locked := (locked h)(p := True)\<rparr>))"

definition Mutex_Unlock :: "MutexHeap \<Rightarrow> nat \<Rightarrow> fault + MutexHeap" where
  "Mutex_Unlock h p =
     (if locked h p then Inr (h\<lparr>locked := (locked h)(p := False)\<rparr>)
      else Inl UnlockOfUnlockedMutex)"

record mutexEntry =
  mutex :: nat
  lastAccess :: Time

record RequestMutex =
  mutexes :: "string \<rightharpoonup> mutexEntry"
  cleanupTTL :: Duration
  stopCh_rm :: bool
  stopped :: bool

definition RequestMutex_New :: "Duration \<Rightarrow> RequestMutex" where
  "RequestMutex_New d = \<lparr>mutexes = Map.empty, cleanupTTL = d, stopCh_rm = False, stopped = False\<rparr>"

text \<open>
  \<^verbatim>\<open>GetMutex\<close> looks the address up under the read lock and, when there is no entry, looks
  it up again under the write lock before it creates one. The second look-up makes the
  whole method behave as one atomic get-or-create, which is how it is modelled; both
  look-ups are written out.
\<close>

definition GetMutex ::
  "RequestMutex \<Rightarrow> MutexHeap \<Rightarrow> string \<Rightarrow> Time \<Rightarrow> nat \<times> RequestMutex \<times> MutexHeap" where
  "GetMutex rm h address now =
     (case mutexes rm address of
        Some entry \<Rightarrow>
          (mutex entry, rm\<lparr>mutexes := (mutexes rm)(address \<mapsto> entry\<lparr>lastAccess := now\<rparr>)\<rparr>, h)
      | None \<Rightarrow>
          (case mutexes rm address of
             Some entry \<Rightarrow>
               (mutex entry, rm\<lparr>mutexes := (mutexes rm)(address \<mapsto> entry\<lparr>lastAccess := now\<rparr>)\<rparr>, h)
           | None \<Rightarrow>
               (let (p, h') = Mutex_new h;
                    newEntry = \<lparr>mutex = p, lastAccess = now\<rparr>
                in (p, rm\<lparr>mutexes := (mutexes rm)(address \<mapsto> newEntry)\<rparr>, h'))))"

definition RequestMutex_Lock ::
  "RequestMutex \<Rightarrow> MutexHeap \<Rightarrow> string \<Rightarrow> Time \<Rightarrow> (RequestMutex \<times> MutexHeap) option" where
  "RequestMutex_Lock rm h address now =
     (let (p, rm', h') = GetMutex rm h address now
      in case Mutex_Lock h' p of None \<Rightarrow> None | Some h'' \<Rightarrow> Some (rm', h''))"

definition RequestMutex_Unlock ::
  "RequestMutex \<Rightarrow> MutexHeap \<Rightarrow> string \<Rightarrow> fault + RequestMutex \<times> MutexHeap" where
  "RequestMutex_Unlock rm h address =
     (case mutexes rm address of
        Some entry \<Rightarrow>
          (case Mutex_Unlock h (mutex entry) of Inl f \<Rightarrow> Inl f | Inr h' \<Rightarrow> Inr (rm, h'))
      | None \<Rightarrow> Inr (rm, h))"

text \<open>
  \<^verbatim>\<open>removeUnused\<close> deletes an entry when it has not been accessed for longer than the
  cleanup TTL and \<^verbatim>\<open>TryLock\<close> on its mutex succeeds; the mutex is unlocked again before
  the entry is deleted, so the store of mutexes is as before.
\<close>

definition removeUnused :: "RequestMutex \<Rightarrow> MutexHeap \<Rightarrow> Time \<Rightarrow> RequestMutex" where
  "removeUnused rm h now =
     rm\<lparr>mutexes := (\<lambda>address. case mutexes rm address of
                          None \<Rightarrow> None
                        | Some entry \<Rightarrow>
                            if cleanupTTL rm <s time_Sub now (lastAccess entry)
                               \<and> fst (Mutex_TryLock h (mutex entry))
                            then None else Some entry)\<rparr>"

definition RequestMutex_Stop :: "RequestMutex \<Rightarrow> fault + RequestMutex" where
  "RequestMutex_Stop rm =
     (if \<not> stopped rm
      then (if stopCh_rm rm then Inl CloseOfClosedChannel
            else Inr (rm\<lparr>stopped := True, stopCh_rm := True\<rparr>))
      else Inr rm)"

section \<open>The balance service (internal/services/balance.go)\<close>

text \<open>
  \<^verbatim>\<open>models.WalletBalance\<close> and \<^verbatim>\<open>models.BalanceResponse\<close>. The field \<^verbatim>\<open>Balance\<close> of a wallet
  balance is \<open>Balance_wb\<close> here, apart from the field of the cache entry.
\<close>

record 'b WalletBalance =
  Address :: string
  Balance_wb :: 'b
  Error :: string

record 'b BalanceResponse =
  Balances :: "'b WalletBalance list"
  Cached :: bool

text \<open>
  The upstream client is the interface \<^verbatim>\<open>SolanaServiceInterface\<close>: its \<^verbatim>\<open>GetBalance\<close> answers
  a balance or an error, and may answer differently each time it is asked. It is a
  function of the number of the call (calls are numbered as the service issues them) and
  of the address; an error is its message, which is all the service uses of it.

  The service owns the cache, the lock registry and the metrics collector. The model
  keeps with them the store of mutexes, the list of addresses for which the service has
  called the upstream client, in the order of the calls, and the clock, which every
  \<^verbatim>\<open>time.Now()\<close> reads.
\<close>

type_synonym 'b upstream = "nat \<Rightarrow> string \<Rightarrow> string + 'b"

record 'b BalanceService =
  cache :: "'b Cache"
  requestMutex :: RequestMutex
  metrics_bs :: MetricsCollector
  mutexHeap :: MutexHeap
  rpcLog :: "string list"
  clock :: Time

definition NewBalanceService :: "Duration \<Rightarrow> Duration \<Rightarrow> Time \<Rightarrow> 'b BalanceService" where
  "NewBalanceService cacheTTL cleanupInterval now =
     \<lparr>cache = Cache_New cacheTTL,
      requestMutex = RequestMutex_New cleanupInterval,
      metrics_bs = NewMetricsCollector now,
      mutexHeap = \<lparr>locked = (\<lambda>_. False), nextMutex = 0\<rparr>,
      rpcLog = [],
      clock = now\<rparr>"

text \<open>
  \<^verbatim>\<open>getBalanceWithCache\<close> runs beside other goroutines, which may change the cache and the
  registry between two of its accesses. One call is therefore a small machine. Its control
  points are: before the first cache check; after a miss, before \<^verbatim>\<open>GetMutex\<close> (keeping
  \<^verbatim>\<open>mutexStartTime\<close>); in \<^verbatim>\<open>addressMutex.Lock()\<close> with the pointer it was given; holding the
  lock, before the second cache check; holding the lock with the upstream call in flight
  (keeping \<^verbatim>\<open>rpcStartTime\<close> and the number of the call); and returned, with the two results.
  Each step is one access to the shared cache, registry or mutex, together with the
  metrics updates and local work that follow it; the deferred \<^verbatim>\<open>Unlock\<close> belongs to the step
  that returns. A step in \<^verbatim>\<open>Lock()\<close> on a locked mutex changes nothing: the goroutine is
  blocked.
\<close>

datatype 'b lookup =
    Start
  | NeedMutex Time
  | WaitLock nat Time
  | Locked nat
  | Fetching nat Time nat
  | Done "'b WalletBalance" bool

definition millisecond :: Duration where
  "millisecond = 1000000"

fun lookup_step ::
  "('b::zero) upstream \<Rightarrow> string \<Rightarrow> 'b lookup \<Rightarrow> 'b BalanceService
     \<Rightarrow> fault + 'b lookup \<times> 'b BalanceService" where
  "lookup_step rpc address Start bs =
     (let (cachedBalance, found) = Cache_Get (cache bs) address (clock bs)
      in if found
         then Inr (Done \<lparr>Address = address, Balance_wb = cachedBalance, Error = []\<rparr> True,
                   bs\<lparr>metrics_bs := RecordCacheHit (metrics_bs bs)\<rparr>)
         else Inr (NeedMutex (clock bs), bs\<lparr>metrics_bs := RecordCacheMiss (metrics_bs bs)\<rparr>))"
| "lookup_step rpc address (NeedMutex mutexStartTime) bs =
     (let (p, rm, h) = GetMutex (requestMutex bs) (mutexHeap bs) address (clock bs)
      in Inr (WaitLock p mutexStartTime, bs\<lparr>requestMutex := rm, mutexHeap := h\<rparr>))"
| "lookup_step rpc address (WaitLock p mutexStartTime) bs =
     (case Mutex_Lock (mutexHeap bs) p of
        None \<Rightarrow> Inr (WaitLock p mutexStartTime, bs)
      | Some h \<Rightarrow>
          Inr (Locked p,
               bs\<lparr>mutexHeap := h,
                  metrics_bs := (if millisecond <s time_Since (clock bs) mutexStartTime
                                 then RecordMutexWait (metrics_bs bs) else metrics_bs bs)\<rparr>))"
| "lookup_step rpc address (Locked p) bs =
     (let (cachedBalance, found) = Cache_Get (cache bs) address (clock bs)
      in if found
         then (case Mutex_Unlock (mutexHeap bs) p of
                 Inl f \<Rightarrow> Inl f
               | Inr h \<Rightarrow>
                   Inr (Done \<lparr>Address = address, Balance_wb = cachedBalance, Error = []\<rparr> True,
                        bs\<lparr>metrics_bs := RecordCacheHit (metrics_bs bs), mutexHeap := h\<rparr>))
         else Inr (Fetching p (clock bs) (length (rpcLog bs)),
                   bs\<lparr>rpcLog := rpcLog bs @ [address]\<rparr>))"
| "lookup_step rpc address (Fetching p rpcStartTime n) bs =
     (let rpcDuration = time_Since (clock bs) rpcStartTime
      in case rpc n address of
           Inl err \<Rightarrow>
             (case Mutex_Unlock (mutexHeap bs) p of
                Inl f \<Rightarrow> Inl f
              | Inr h \<Rightarrow>
                  Inr (Done \<lparr>Address = address, Balance_wb = 0,
                             Error = ''Failed to fetch balance: '' @ err\<rparr> False,
                       bs\<lparr>metrics_bs := RecordRPCCall (metrics_bs bs) rpcDuration False,
                          mutexHeap := h\<rparr>))
         | Inr balance \<Rightarrow>
             (case Mutex_Unlock (mutexHeap bs) p of
                Inl f \<Rightarrow> Inl f
              | Inr h \<Rightarrow>
                  Inr (Done \<lparr>Address = address, Balance_wb = balance, Error = []\<rparr> False,
                       bs\<lparr>metrics_bs := RecordRPCCall (metrics_bs bs) rpcDuration True,
                          cache := Cache_Set (cache bs) address balance (clock bs),
                          mutexHeap := h\<rparr>)))"
| "lookup_step rpc address (Done walletBalance cached) bs = Inr (Done walletBalance cached, bs)"

text \<open>
  One call of \<^verbatim>\<open>getBalanceWithCache\<close> from a control point on, beside other goroutines:
  the list gives, for each step of the call, what the others have done to the service
  since its last step. The call has no result while it has not returned.
\<close>

fun getBalanceWithCache ::
  "('b::zero) upstream \<Rightarrow> string \<Rightarrow> ('b BalanceService \<Rightarrow> 'b BalanceService) list \<Rightarrow> 'b lookup
     \<Rightarrow> 'b BalanceService \<Rightarrow> (fault + ('b WalletBalance \<times> bool) \<times> 'b BalanceService) option" where
  "getBalanceWithCache rpc address envs (Done walletBalance cached) bs =
     Some (Inr ((walletBalance, cached), bs))"
| "getBalanceWithCache rpc address [] pc bs = None"
| "getBalanceWithCache rpc address (env # envs) pc bs =
     (case lookup_step rpc address pc (env bs) of
        Inl f \<Rightarrow> Some (Inl f)
      | Inr (pc', bs') \<Rightarrow> getBalanceWithCache rpc address envs pc' bs')"

text \<open>
  \<^verbatim>\<open>GetBalances\<close> starts one goroutine per address and waits for all of them. A schedule
  says what happens in which order: goroutine \<open>i\<close> takes its next step, or the ticker of
  the cache or of the registry fires and the background sweep runs (unless it has been
  stopped); before each event the clock advances by the given number of nanoseconds. A
  goroutine that returns from \<^verbatim>\<open>getBalanceWithCache\<close> writes its element of \<^verbatim>\<open>balances\<close> and
  clears \<^verbatim>\<open>allCached\<close> when its result was not cached.
\<close>

datatype event = Run nat | SweepCache | SweepMutexes

type_synonym schedule = "(event \<times> nat) list"

record 'b batch =
  balances :: "'b WalletBalance list"
  allCached :: bool
  workers :: "'b lookup list"

fun is_Done :: "'b lookup \<Rightarrow> bool" where
  "is_Done (Done walletBalance cached) = True"
| "is_Done _ = False"

definition worker_step ::
  "('b::zero) upstream \<Rightarrow> string list \<Rightarrow> nat \<Rightarrow> 'b batch \<Rightarrow> 'b BalanceService
     \<Rightarrow> fault + 'b batch \<times> 'b BalanceService" where
  "worker_step rpc addresses i b bs =
     (if i < length addresses \<and> \<not> is_Done (workers b ! i)
      then (case lookup_step rpc (addresses ! i) (workers b ! i) bs of
              Inl f \<Rightarrow> Inl f
            | Inr (Done walletBalance cached, bs') \<Rightarrow>
                Inr (b\<lparr>balances := (balances b)[i := walletBalance],
                        allCached := (if \<not> cached then False else allCached b),
                        workers := (workers b)[i := Done walletBalance cached]\<rparr>, bs')
            | Inr (pc, bs') \<Rightarrow> Inr (b\<lparr>workers := (workers b)[i := pc]\<rparr>, bs'))
      else Inr (b, bs))"

definition batch_step ::
  "('b::zero) upstream \<Rightarrow> string list \<Rightarrow> event \<times> nat \<Rightarrow> 'b batch \<Rightarrow> 'b BalanceService
     \<Rightarrow> fault + 'b batch \<times> 'b BalanceService" where
  "batch_step rpc addresses e b bs =
     (let bs1 = bs\<lparr>clock := clock bs + int (snd e)\<rparr>
      in case fst e of
           Run i \<Rightarrow> worker_step rpc addresses i b bs1
         | SweepCache \<Rightarrow>
             Inr (b, if stopCh (cache bs1) then bs1
                     else bs1\<lparr>cache := removeExpired (cache bs1) (clock bs1)\<rparr>)
         | SweepMutexes \<Rightarrow>
             Inr (b, if stopCh_rm (requestMutex bs1) then bs1
                     else bs1\<lparr>requestMutex :=
                            removeUnused (requestMutex bs1) (mutexHeap bs1) (clock bs1)\<rparr>))"

text \<open>
  \<^verbatim>\<open>wg.Wait()\<close> returns once every goroutine has returned. A schedule that ends before
  gives no result: the call has not returned.
\<close>

fun run_batch ::
  "('b::zero) upstream \<Rightarrow> string list \<Rightarrow> schedule \<Rightarrow> 'b batch \<Rightarrow> 'b BalanceService
     \<Rightarrow> (fault + 'b batch \<times> 'b BalanceService) option" where
  "run_batch rpc addresses [] b bs =
     (if list_all is_Done (workers b) then Some (Inr (b, bs)) else None)"
| "run_batch rpc addresses (e # es) b bs =
     (if list_all is_Done (workers b) then Some (Inr (b, bs))
      else (case batch_step rpc addresses e b bs of
              Inl f \<Rightarrow> Some (Inl f)
            | Inr (b', bs') \<Rightarrow> run_batch rpc addresses es b' bs'))"

definition zeroWalletBalance :: "('b::zero) WalletBalance" where
  "zeroWalletBalance = \<lparr>Address = [], Balance_wb = 0, Error = []\<rparr>"

text \<open>
  The result of \<^verbatim>\<open>GetBalances\<close> is the response and the error, which is \<open>None\<close> for Go's
  \<^verbatim>\<open>nil\<close>, with the service as the call leaves it.
\<close>

definition GetBalances ::
  "('b::zero) upstream \<Rightarrow> 'b BalanceService \<Rightarrow> string list \<Rightarrow> schedule
     \<Rightarrow> (fault + ('b BalanceResponse \<times> string option) \<times> 'b BalanceService) option" where
  "GetBalances rpc bs addresses sched =
     (let startTime = clock bs;
          bs1 = bs\<lparr>metrics_bs := RecordRequest (metrics_bs bs)\<rparr>
      in if length addresses = 0
         then Some (Inr ((\<lparr>Balances = [], Cached = False\<rparr>, None),
                bs1\<lparr>metrics_bs :=
                      RecordRequestComplete (metrics_bs bs1) (time_Since (clock bs1) startTime) True\<rparr>))
         else (case run_batch rpc addresses sched
                      \<lparr>balances = replicate (length addresses) zeroWalletBalance,
                       allCached = True,
                       workers = replicate (length addresses) Start\<rparr> bs1 of
                 None \<Rightarrow> None
               | Some (Inl f) \<Rightarrow> Some (Inl f)
               | Some (Inr (b, bs2)) \<Rightarrow>
                   (let success = list_all (\<lambda>balance. Error balance = []) (balances b)
                    in Some (Inr ((\<lparr>Balances = balances b, Cached = allCached b\<rparr>, None),
                         bs2\<lparr>metrics_bs :=
                               RecordRequestComplete (metrics_bs bs2)
                                 (time_Since (clock bs2) startTime) success\<rparr>)))))"

definition BalanceService_Stop :: "'b BalanceService \<Rightarrow> fault + 'b BalanceService" where
  "BalanceService_Stop bs =
     (case Cache_Stop (cache bs) of
        Inl f \<Rightarrow> Inl f
      | Inr c \<Rightarrow>
          (case RequestMutex_Stop (requestMutex bs) of
             Inl f \<Rightarrow> Inl f
           | Inr rm \<Rightarrow> Inr (bs\<lparr>cache := c, requestMutex := rm\<rparr>)))"

section \<open>The upstream client (SolanaClient.GetBalance in internal/services/health.go)\<close>

text \<open>
  \<^verbatim>\<open>RPCConfig\<close> with the fields the method reads. \<^verbatim>\<open>MaxRetries\<close> is a Go \<^verbatim>\<open>int\<close>, taken as
  its integer value (below the largest \<^verbatim>\<open>int\<close>, so that \<^verbatim>\<open>attempt++\<close> does not wrap); the
  durations are \<^verbatim>\<open>int64\<close>, and the product \<^verbatim>\<open>RetryDelay * time.Duration(attempt+1)\<close> is the
  wrapping product of 64-bit words.

  The library is a parameter of the model: \<open>parse\<close> is \<^verbatim>\<open>solana.PublicKeyFromBase58\<close>;
  \<open>call pubKey k timeout\<close> is the answer of \<^verbatim>\<open>s.client.GetBalance\<close> in attempt number \<open>k\<close>,
  under a context with the given timeout (an attempt that runs into the timeout answers
  an error); \<open>toSOL\<close> is the floating-point conversion \<^verbatim>\<open>float64(balance.Value) / 1e9\<close>.
  An error of the library is its message. Beside its two results the method yields what
  it did: the attempts, each with the timeout of its context, and the sleeps between them.
\<close>

record RPCConfig =
  Timeout :: Duration
  MaxRetries :: int
  RetryDelay :: Duration

datatype client_error =
    InvalidWalletAddress string
  | RetriesExhausted int "string option"

datatype action = Attempt Duration | Sleep Duration

function retry_loop ::
  "RPCConfig \<Rightarrow> (nat \<Rightarrow> Duration \<Rightarrow> string + 64 word) \<Rightarrow> (64 word \<Rightarrow> 'b) \<Rightarrow> int
     \<Rightarrow> string option \<Rightarrow> (('b::zero) \<times> client_error option) \<times> action list" where
  "retry_loop cfg call toSOL attempt lastErr =
     (if attempt \<le> MaxRetries cfg
      then (case call (nat attempt) (Timeout cfg) of
              Inr balance \<Rightarrow> ((toSOL balance, None), [Attempt (Timeout cfg)])
            | Inl err \<Rightarrow>
                (let sleeps = (if attempt < MaxRetries cfg
                               then [Sleep (RetryDelay cfg * word_of_int (attempt + 1))]
                               else []);
                     (result, rest) = retry_loop cfg call toSOL (attempt + 1) (Some err)
                 in (result, Attempt (Timeout cfg) # sleeps @ rest)))
      else ((0, Some (RetriesExhausted (MaxRetries cfg + 1) lastErr)), []))"
  by pat_completeness auto
termination
  by (relation "measure (\<lambda>(cfg, call, toSOL, attempt, lastErr). nat (MaxRetries cfg + 1 - attempt))")
    auto

definition SolanaClient_GetBalance ::
  "(string \<Rightarrow> string + 'k) \<Rightarrow> ('k \<Rightarrow> nat \<Rightarrow> Duration \<Rightarrow> string + 64 word) \<Rightarrow> (64 word \<Rightarrow> 'b)
     \<Rightarrow> RPCConfig \<Rightarrow> string \<Rightarrow> (('b::zero) \<times> client_error option) \<times> action list" where
  "SolanaClient_GetBalance parse call toSOL cfg address =
     (case parse address of
        Inl err \<Rightarrow> ((0, Some (InvalidWalletAddress err)), [])
      | Inr pubKey \<Rightarrow> retry_loop cfg (call pubKey) toSOL 0 None)"

fun sleeps_of :: "action list \<Rightarrow> Duration list" where
  "sleeps_of [] = []"
| "sleeps_of (Attempt timeout # as) = sleeps_of as"
| "sleeps_of (Sleep d # as) = d # sleeps_of as"

fun attempts_of :: "action list \<Rightarrow> Duration list" where
  "attempts_of [] = []"
| "attempts_of (Attempt timeout # as) = timeout # attempts_of as"
| "attempts_of (Sleep d # as) = attempts_of as"

text \<open>
  A sequence of delays grows exponentially when each delay is the one before it times a
  fixed factor above 1. For the three delays of the default configuration it is enough to
  compare cross products.
\<close>

fun geometric :: "int list \<Rightarrow> bool" where
  "geometric (a # b # c # ds) = (b * b = a * c \<and> geometric (b # c # ds))"
| "geometric ds = True"

definition second :: Duration where
  "second = 1000000000"

section \<open>What a batch guarantees: the invariants of a run\<close>

text \<open>
  The notions used to state and prove what \<^verbatim>\<open>GetBalances\<close> returns. They speak about the
  upstream client \<open>rpc\<close>, the cache contents \<open>data0\<close> and the number \<open>n0\<close> of upstream
  calls at the time of the call, and the list \<open>log\<close> of upstream calls so far.

  A value is justified for an address when it is the balance the cache held for that
  address when the call began, or the answer of the upstream client to a call for that
  address issued during the call. A result is in order for an address when it carries
  that address and either has no error and a justified balance, or has the balance 0 and
  the error text of a failed upstream call for that same address issued during the call.
\<close>

definition justified ::
  "'b upstream \<Rightarrow> (string \<rightharpoonup> 'b CacheEntry) \<Rightarrow> nat \<Rightarrow> string list \<Rightarrow> string \<Rightarrow> 'b \<Rightarrow> bool" where
  "justified rpc data0 n0 log address v =
     ((\<exists>entry. data0 address = Some entry \<and> Balance entry = v)
      \<or> (\<exists>k. n0 \<le> k \<and> k < length log \<and> log ! k = address \<and> rpc k address = Inr v))"

definition failed_call :: "'b upstream \<Rightarrow> nat \<Rightarrow> string list \<Rightarrow> string \<Rightarrow> string \<Rightarrow> bool" where
  "failed_call rpc n0 log address err =
     (\<exists>k. n0 \<le> k \<and> k < length log \<and> log ! k = address \<and> rpc k address = Inl err)"

definition result_ok ::
  "'b upstream \<Rightarrow> (string \<rightharpoonup> 'b CacheEntry) \<Rightarrow> nat \<Rightarrow> string list \<Rightarrow> string
     \<Rightarrow> ('b::zero) WalletBalance \<Rightarrow> bool" where
  "result_ok rpc data0 n0 log address r =
     (Address r = address
      \<and> (if Error r = [] then justified rpc data0 n0 log address (Balance_wb r)
         else Balance_wb r = 0
              \<and> (\<exists>err. failed_call rpc n0 log address err
                     \<and> Error r = ''Failed to fetch balance: '' @ err)))"

text \<open>
  What holds of a goroutine of the batch at each control point: once it has returned,
  its element of \<^verbatim>\<open>balances\<close> is its result and the result is in order for its address;
  while its upstream call is in flight, the call is in the log under its address.
\<close>

fun worker_ok ::
  "'b upstream \<Rightarrow> (string \<rightharpoonup> 'b CacheEntry) \<Rightarrow> nat \<Rightarrow> string list \<Rightarrow> string
     \<Rightarrow> ('b::zero) WalletBalance \<Rightarrow> 'b lookup \<Rightarrow> bool" where
  "worker_ok rpc data0 n0 log address balance (Done r c) =
     (balance = r \<and> result_ok rpc data0 n0 log address r)"
| "worker_ok rpc data0 n0 log address balance (Fetching p t k) =
     (n0 \<le> k \<and> k < length log \<and> log ! k = address)"
| "worker_ok rpc data0 n0 log address balance pc = True"

definition batch_inv ::
  "'b upstream \<Rightarrow> string list \<Rightarrow> (string \<rightharpoonup> 'b CacheEntry) \<Rightarrow> nat
     \<Rightarrow> ('b::zero) batch \<Rightarrow> 'b BalanceService \<Rightarrow> bool" where
  "batch_inv rpc addresses data0 n0 b bs =
     (length (balances b) = length addresses
      \<and> length (workers b) = length addresses
      \<and> n0 \<le> length (rpcLog bs)
      \<and> (\<forall>address entry. data (cache bs) address = Some entry \<longrightarrow>
            justified rpc data0 n0 (rpcLog bs) address (Balance entry))
      \<and> (\<forall>i<length addresses.
            worker_ok rpc data0 n0 (rpcLog bs) (addresses ! i) (balances b ! i) (workers b ! i)))"

text \<open>
  The mutex a goroutine holds, and the one it waits for. No fault can occur as long as
  every goroutine that holds a mutex finds it locked, no two goroutines hold the same
  mutex, and every pointer in use (held, waited for, or kept in the registry) is an
  allocated address.
\<close>

fun holds :: "'b lookup \<Rightarrow> nat option" where
  "holds (Locked p) = Some p"
| "holds (Fetching p t k) = Some p"
| "holds pc = None"

fun waits :: "'b lookup \<Rightarrow> nat option" where
  "waits (WaitLock p t) = Some p"
| "waits pc = None"

definition registry_wf :: "RequestMutex \<Rightarrow> MutexHeap \<Rightarrow> bool" where
  "registry_wf rm h = (\<forall>address entry. mutexes rm address = Some entry \<longrightarrow> mutex entry < nextMutex h)"

definition mutex_inv :: "'b batch \<Rightarrow> 'b BalanceService \<Rightarrow> bool" where
  "mutex_inv b bs =
     ((\<forall>i<length (workers b). \<forall>p. holds (workers b ! i) = Some p \<longrightarrow>
          locked (mutexHeap bs) p \<and> p < nextMutex (mutexHeap bs)
          \<and> (\<forall>j<length (workers b). j \<noteq> i \<longrightarrow> holds (workers b ! j) \<noteq> Some p))
      \<and> (\<forall>i<length (workers b). \<forall>p. waits (workers b ! i) = Some p \<longrightarrow> p < nextMutex (mutexHeap bs))
      \<and> registry_wf (requestMutex bs) (mutexHeap bs))"

text \<open>
  The schedule that runs the goroutines one after the other, each for the five steps a
  lookup takes at most, without background sweeps and without the clock advancing.
\<close>

definition sequential :: "nat \<Rightarrow> schedule" where
  "sequential n = concat (map (\<lambda>i. replicate 5 (Run i, 0)) [0..<n])"

fun steps_left :: "'b lookup \<Rightarrow> nat" where
  "steps_left Start = 5"
| "steps_left (NeedMutex t) = 4"
| "steps_left (WaitLock p t) = 3"
| "steps_left (Locked p) = 2"
| "steps_left (Fetching p t k) = 1"
| "steps_left (Done r c) = 0"

text \<open>
  A goroutine runs alone when the only locked mutex is the one it holds.
\<close>

definition solo :: "'b lookup \<Rightarrow> MutexHeap \<Rightarrow> bool" where
  "solo pc h = (\<forall>q. locked h q = (holds pc = Some q))"

section \<open>Properties of the cache\<close>

lemma sint_time_Sub:
  "sint (time_Sub t u) = max minDuration (min maxDuration (t - u))"
proof -
  have a: "sint (word_of_int maxDuration :: 64 word) = maxDuration"
    by (simp add: maxDuration_def)
  have b: "sint (word_of_int minDuration :: 64 word) = minDuration"
    by (simp add: minDuration_def)
  have c: "sint (word_of_int d :: 64 word) = d"
    if "minDuration \<le> d" "d \<le> maxDuration" for d
    using that
    by (simp add: sint_sbintrunc' signed_take_bit_int_eq_self minDuration_def maxDuration_def)
  have m: "minDuration < maxDuration"
    by (simp add: minDuration_def maxDuration_def)
  show ?thesis
    using a b c [of "t - u"] m by (auto simp: time_Sub_def Let_def)
qed

text \<open>
  C2. For every key and every time of reading, \<^verbatim>\<open>Get\<close> answers \<open>found = true\<close> exactly
  when the key has an entry and the time since its insertion, as \<^verbatim>\<open>time.Since\<close> computes
  it, is at most the TTL, and then the value is the entry's balance; otherwise (no entry,
  or an age above the TTL) it answers \<open>found = false\<close> with the value 0.
\<close>

theorem Cache_Get_found_iff_live:
  "snd (Cache_Get c key now) =
     (\<exists>entry. data c key = Some entry \<and> time_Since now (Timestamp entry) \<le>s ttl c)
   \<and> (\<forall>entry. data c key = Some entry \<and> time_Since now (Timestamp entry) \<le>s ttl c
        \<longrightarrow> Cache_Get c key now = (Balance entry, True))
   \<and> (data c key = None \<longrightarrow> Cache_Get c key now = (0, False))
   \<and> (\<forall>entry. data c key = Some entry \<and> ttl c <s time_Since now (Timestamp entry)
        \<longrightarrow> Cache_Get c key now = (0, False))"
  by (auto simp: Cache_Get_def word_sle_eq word_sless_alt split: option.splits)


theorem Cache_Get_found_iff_live_witness:
  "Cache_Get \<lparr>data = [''A'' \<mapsto> \<lparr>Balance = 7 :: int, Timestamp = 100\<rparr>], ttl = 50, stopCh = False\<rparr>
     ''A'' 150 = (7, True)
   \<and> Cache_Get \<lparr>data = [''A'' \<mapsto> \<lparr>Balance = 7 :: int, Timestamp = 100\<rparr>], ttl = 50, stopCh = False\<rparr>
     ''A'' 151 = (0, False)
   \<and> Cache_Get \<lparr>data = [''A'' \<mapsto> \<lparr>Balance = 7 :: int, Timestamp = 100\<rparr>], ttl = 50, stopCh = False\<rparr>
     ''B'' 150 = (0, False)"
  using
    Cache_Get_found_iff_live [of "\<lparr>data = [''A'' \<mapsto> \<lparr>Balance = 7 :: int, Timestamp = 100\<rparr>],
      ttl = 50, stopCh = False\<rparr>" "''A''" 150]
    Cache_Get_found_iff_live [of "\<lparr>data = [''A'' \<mapsto> \<lparr>Balance = 7 :: int, Timestamp = 100\<rparr>],
      ttl = 50, stopCh = False\<rparr>" "''A''" 151]
    Cache_Get_found_iff_live [of "\<lparr>data = [''A'' \<mapsto> \<lparr>Balance = 7 :: int, Timestamp = 100\<rparr>],
      ttl = 50, stopCh = False\<rparr>" "''B''" 150]
  by (simp add: time_Since_def time_Sub_def maxDuration_def minDuration_def)

lemma removeExpired_keeps_fields:
  "ttl (removeExpired c now) = ttl c" "stopCh (removeExpired c now) = stopCh c"
  by (simp_all add: removeExpired_def)

lemma removeExpired_subset: "data (removeExpired c now) key = Some entry \<Longrightarrow> data c key = Some entry"
  by (auto simp: removeExpired_def split: option.splits if_splits)

lemma Cache_Get_removeExpired: "Cache_Get (removeExpired c now) key now = Cache_Get c key now"
  by (simp add: Cache_Get_def removeExpired_def time_Since_def split: option.splits)

text \<open>
  C8. The read-time check and the sweep use the same comparison: for every entry and
  every observation time, \<^verbatim>\<open>Get\<close> treats the entry as expired (the time since insertion is
  above the TTL) exactly when \<^verbatim>\<open>removeExpired\<close>, run at that time, deletes it; an entry
  that \<^verbatim>\<open>Get\<close> finds is kept by the sweep as it is.
\<close>

theorem Get_and_removeExpired_agree:
  "data c key = Some entry \<Longrightarrow>
     (ttl c <s time_Since now (Timestamp entry)) = (data (removeExpired c now) key = None)
   \<and> (\<not> snd (Cache_Get c key now)) = (data (removeExpired c now) key = None)
   \<and> snd (Cache_Get c key now) = (data (removeExpired c now) key = Some entry)"
  by (simp add: Cache_Get_def removeExpired_def time_Since_def)

theorem Get_and_removeExpired_agree_witness:
  "\<not> snd (Cache_Get \<lparr>data = [''A'' \<mapsto> \<lparr>Balance = 7 :: int, Timestamp = 100\<rparr>], ttl = 50, stopCh = False\<rparr>
       ''A'' 151)
   \<and> data (removeExpired \<lparr>data = [''A'' \<mapsto> \<lparr>Balance = 7 :: int, Timestamp = 100\<rparr>], ttl = 50,
       stopCh = False\<rparr> 151) ''A'' = None
   \<and> snd (Cache_Get \<lparr>data = [''A'' \<mapsto> \<lparr>Balance = 7 :: int, Timestamp = 100\<rparr>], ttl = 50, stopCh = False\<rparr>
       ''A'' 150)
   \<and> data (removeExpired \<lparr>data = [''A'' \<mapsto> \<lparr>Balance = 7 :: int, Timestamp = 100\<rparr>], ttl = 50,
       stopCh = False\<rparr> 150) ''A'' = Some \<lparr>Balance = 7, Timestamp = 100\<rparr>"
proof -
  let ?e = "\<lparr>Balance = 7 :: int, Timestamp = 100\<rparr>"
  let ?c = "\<lparr>data = [''A'' \<mapsto> ?e], ttl = 50, stopCh = False\<rparr>"
  have h: "data ?c ''A'' = Some ?e" by simp
  have late: "ttl ?c <s time_Since 151 (Timestamp ?e)"
    by (simp add: time_Since_def time_Sub_def maxDuration_def minDuration_def)
  have early: "\<not> ttl ?c <s time_Since 150 (Timestamp ?e)"
    by (simp add: time_Since_def time_Sub_def maxDuration_def minDuration_def)
  have a: "\<not> snd (Cache_Get ?c ''A'' 151) \<and> data (removeExpired ?c 151) ''A'' = None"
    using Get_and_removeExpired_agree [OF h, of 151] late by blast
  have b: "snd (Cache_Get ?c ''A'' 150) \<and> data (removeExpired ?c 150) ''A'' = Some ?e"
    using Get_and_removeExpired_agree [OF h, of 150] early by auto
  from a b show ?thesis by blast
qed


section \<open>Properties of the metrics collector\<close>

lemma sint_incr:
  fixes x :: "64 word"
  assumes "sint x < maxInt64"
  shows "sint (x + 1) = sint x + 1"
proof -
  have "- (2 ^ 63) \<le> sint x"
    using sint_ge [of x] by simp
  with assms show ?thesis
    by (simp add: sint_word_add signed_take_bit_int_eq_self maxInt64_def)
qed

text \<open>
  C9 (as amended). Under every recording operation each of the seven counters is
  non-decreasing as long as it is below the largest \<^verbatim>\<open>int64\<close>, \<open>2^63 - 1\<close>, and \<^verbatim>\<open>Reset\<close>
  sets all seven to zero.
\<close>

theorem counters_non_decreasing_below_max:
  "list_all2 (\<lambda>before after. before < maxInt64 \<longrightarrow> before \<le> after)
     (counters mc) (counters (record_op op mc))
   \<and> counters (Reset mc now) = [0, 0, 0, 0, 0, 0, 0]"
  by (cases op)
    (simp_all add: counters_def RecordRequest_def RecordRequestComplete_def RecordCacheHit_def
      RecordCacheMiss_def RecordRPCCall_def RecordMutexWait_def Reset_def Let_def sint_incr)

theorem counters_non_decreasing_below_max_witness:
  "counters (record_op (OpRecordRPCCall 5 False) (NewMetricsCollector 0)) = [0, 0, 0, 0, 0, 1, 1]
   \<and> counters (Reset (record_op (OpRecordRPCCall 5 False) (NewMetricsCollector 0)) 9)
       = [0, 0, 0, 0, 0, 0, 0]"
proof -
  have c: "counters (NewMetricsCollector 0) = [0, 0, 0, 0, 0, 0, 0]"
    by (simp add: counters_def NewMetricsCollector_def)
  have "list_all2 (\<lambda>before after. before < maxInt64 \<longrightarrow> before \<le> after)
      (counters (NewMetricsCollector 0))
      (counters (record_op (OpRecordRPCCall 5 False) (NewMetricsCollector 0)))"
    using counters_non_decreasing_below_max [of "NewMetricsCollector 0" "OpRecordRPCCall 5 False"]
    by simp
  moreover have "counters (Reset (record_op (OpRecordRPCCall 5 False) (NewMetricsCollector 0)) 9)
      = [0, 0, 0, 0, 0, 0, 0]"
    using counters_non_decreasing_below_max
      [of "record_op (OpRecordRPCCall 5 False) (NewMetricsCollector 0)" OpRecordCacheHit 9]
    by simp
  moreover have "counters (record_op (OpRecordRPCCall 5 False) (NewMetricsCollector 0))
      = [0, 0, 0, 0, 0, 1, 1]"
    by (simp add: counters_def NewMetricsCollector_def RecordRPCCall_def Let_def)
  ultimately show ?thesis by simp
qed

text \<open>
  C9 as stated fails at the largest \<^verbatim>\<open>int64\<close>: there \<^verbatim>\<open>atomic.AddInt64(&x, 1)\<close> wraps
  around to the smallest one, so \<^verbatim>\<open>RecordCacheHit\<close> makes \<^verbatim>\<open>CacheHits\<close> decrease.
\<close>

theorem counters_non_decreasing_counterexample:
  "\<not> list_all2 (\<le>)
      (counters ((NewMetricsCollector 0)
         \<lparr>metrics := (metrics (NewMetricsCollector 0))\<lparr>CacheHits := 0x7FFFFFFFFFFFFFFF\<rparr>\<rparr>))
      (counters (record_op OpRecordCacheHit ((NewMetricsCollector 0)
         \<lparr>metrics := (metrics (NewMetricsCollector 0))\<lparr>CacheHits := 0x7FFFFFFFFFFFFFFF\<rparr>\<rparr>)))"
  by (simp add: counters_def NewMetricsCollector_def RecordCacheHit_def)

section \<open>Properties of the lock registry\<close>

lemma RequestMutex_Stop_idempotent:
  "RequestMutex_Stop rm = Inr rm' \<Longrightarrow> RequestMutex_Stop rm' = Inr rm'"
  by (auto simp: RequestMutex_Stop_def split: if_splits)

lemma RequestMutex_Unlock_tracked_unlocked:
  "mutexes rm address = Some entry \<Longrightarrow> \<not> locked h (mutex entry) \<Longrightarrow>
     RequestMutex_Unlock rm h address = Inl UnlockOfUnlockedMutex"
  by (simp add: RequestMutex_Unlock_def Mutex_Unlock_def)

text \<open>
  C5 (as amended). For every key that has no entry in the registry, \<^verbatim>\<open>Unlock\<close> is a no-op:
  it does not fault and leaves the registry and every mutex as they were, so that a later
  \<^verbatim>\<open>Lock\<close> of the key does what it would have done without it.
\<close>

theorem Unlock_untracked_is_noop:
  "mutexes rm address = None \<Longrightarrow>
     RequestMutex_Unlock rm h address = Inr (rm, h)
     \<and> (\<forall>rm' h'. RequestMutex_Unlock rm h address = Inr (rm', h') \<longrightarrow>
           RequestMutex_Lock rm' h' address now = RequestMutex_Lock rm h address now)"
  by (simp add: RequestMutex_Unlock_def)

theorem Unlock_untracked_is_noop_witness:
  "RequestMutex_Unlock (RequestMutex_New 50) \<lparr>locked = (\<lambda>_. False), nextMutex = 0\<rparr> ''A''
     = Inr (RequestMutex_New 50, \<lparr>locked = (\<lambda>_. False), nextMutex = 0\<rparr>)"
proof -
  have h: "mutexes (RequestMutex_New 50) ''A'' = None"
    by (simp add: RequestMutex_New_def)
  from Unlock_untracked_is_noop [OF h] show ?thesis by blast
qed

text \<open>
  C5 as stated fails for a key that is in the registry and whose lock is not held: after
  \<^verbatim>\<open>Lock\<close> and \<^verbatim>\<open>Unlock\<close> of the key, a second \<^verbatim>\<open>Unlock\<close> reaches \<^verbatim>\<open>sync.Mutex.Unlock\<close> on an
  unlocked mutex, which is a fatal error.
\<close>

theorem Unlock_not_held_counterexample:
  "RequestMutex_Lock (RequestMutex_New 50) \<lparr>locked = (\<lambda>_. False), nextMutex = 0\<rparr> ''A'' 0
     = Some (\<lparr>mutexes = [''A'' \<mapsto> \<lparr>mutex = 0, lastAccess = 0\<rparr>], cleanupTTL = 50,
               stopCh_rm = False, stopped = False\<rparr>,
             \<lparr>locked = (\<lambda>_. False)(0 := True), nextMutex = 1\<rparr>)
   \<and> RequestMutex_Unlock
       \<lparr>mutexes = [''A'' \<mapsto> \<lparr>mutex = 0, lastAccess = 0\<rparr>], cleanupTTL = 50,
        stopCh_rm = False, stopped = False\<rparr>
       \<lparr>locked = (\<lambda>_. False)(0 := True), nextMutex = 1\<rparr> ''A''
     = Inr (\<lparr>mutexes = [''A'' \<mapsto> \<lparr>mutex = 0, lastAccess = 0\<rparr>], cleanupTTL = 50,
              stopCh_rm = False, stopped = False\<rparr>,
            \<lparr>locked = (\<lambda>_. False)(0 := False), nextMutex = 1\<rparr>)
   \<and> RequestMutex_Unlock
       \<lparr>mutexes = [''A'' \<mapsto> \<lparr>mutex = 0, lastAccess = 0\<rparr>], cleanupTTL = 50,
        stopCh_rm = False, stopped = False\<rparr>
       \<lparr>locked = (\<lambda>_. False)(0 := False), nextMutex = 1\<rparr> ''A''
     = Inl UnlockOfUnlockedMutex"
  by (simp add: RequestMutex_Lock_def RequestMutex_Unlock_def RequestMutex_New_def GetMutex_def
      Mutex_new_def Mutex_Lock_def Mutex_Unlock_def)

section \<open>Shutdown\<close>

lemma Cache_Stop_closes: "Cache_Stop c = Inr c' \<Longrightarrow> stopCh c'"
  by (auto simp: Cache_Stop_def split: if_splits)

lemma Cache_Stop_closed: "stopCh c \<Longrightarrow> Cache_Stop c = Inl CloseOfClosedChannel"
  by (simp add: Cache_Stop_def)

text \<open>
  C6. \<^verbatim>\<open>BalanceService.Stop\<close> is not idempotent: whenever a first call returns, a second
  call panics with \<^verbatim>\<open>close of closed channel\<close> in \<^verbatim>\<open>Cache.Stop\<close>, which closes \<^verbatim>\<open>stopCh\<close>
  without the guard that \<^verbatim>\<open>RequestMutex.Stop\<close> has.
\<close>

theorem BalanceService_Stop_twice_panics:
  "BalanceService_Stop bs = Inr bs' \<Longrightarrow> BalanceService_Stop bs' = Inl CloseOfClosedChannel"
proof -
  assume a: "BalanceService_Stop bs = Inr bs'"
  then obtain c where c: "Cache_Stop (cache bs) = Inr c" and "cache bs' = c"
    by (auto simp: BalanceService_Stop_def split: sum.splits)
  then have "stopCh (cache bs')"
    using Cache_Stop_closes by blast
  then show ?thesis
    by (simp add: BalanceService_Stop_def Cache_Stop_closed)
qed

theorem BalanceService_Stop_twice_panics_witness:
  "BalanceService_Stop (NewBalanceService 10 10 0 :: int BalanceService)
     = Inr ((NewBalanceService 10 10 0)
         \<lparr>cache := (Cache_New 10)\<lparr>stopCh := True\<rparr>,
          requestMutex := (RequestMutex_New 10)\<lparr>stopped := True, stopCh_rm := True\<rparr>\<rparr>)
   \<and> BalanceService_Stop ((NewBalanceService 10 10 0 :: int BalanceService)
         \<lparr>cache := (Cache_New 10)\<lparr>stopCh := True\<rparr>,
          requestMutex := (RequestMutex_New 10)\<lparr>stopped := True, stopCh_rm := True\<rparr>\<rparr>)
     = Inl CloseOfClosedChannel"
proof -
  have h: "BalanceService_Stop (NewBalanceService 10 10 0 :: int BalanceService)
     = Inr ((NewBalanceService 10 10 0)
         \<lparr>cache := (Cache_New 10)\<lparr>stopCh := True\<rparr>,
          requestMutex := (RequestMutex_New 10)\<lparr>stopped := True, stopCh_rm := True\<rparr>\<rparr>)"
    by (simp add: BalanceService_Stop_def NewBalanceService_def Cache_Stop_def Cache_New_def
        RequestMutex_Stop_def RequestMutex_New_def)
  from h BalanceService_Stop_twice_panics [OF h] show ?thesis by simp
qed

section \<open>Properties of the upstream client\<close>

declare retry_loop.simps [simp del]

lemma retry_loop_all_fail:
  assumes "\<forall>k. \<exists>err. call k (Timeout cfg) = Inl err" and "0 \<le> attempt"
  shows "attempts_of (snd (retry_loop cfg call toSOL attempt lastErr))
           = replicate (nat (MaxRetries cfg + 1 - attempt)) (Timeout cfg)
       \<and> sleeps_of (snd (retry_loop cfg call toSOL attempt lastErr))
           = map (\<lambda>k. RetryDelay cfg * word_of_int (int k + 1))
               [nat attempt ..< nat (MaxRetries cfg)]
       \<and> fst (fst (retry_loop cfg call toSOL attempt lastErr)) = 0
       \<and> (\<exists>e. snd (fst (retry_loop cfg call toSOL attempt lastErr))
                = Some (RetriesExhausted (MaxRetries cfg + 1) e)
              \<and> (attempt \<le> MaxRetries cfg \<longrightarrow>
                   Inl (the e) = call (nat (MaxRetries cfg)) (Timeout cfg) \<and> e \<noteq> None)
              \<and> (MaxRetries cfg < attempt \<longrightarrow> e = lastErr))"
  using assms
proof (induction cfg call toSOL attempt lastErr rule: retry_loop.induct)
  case (1 cfg call toSOL attempt lastErr)
  show ?case
  proof (cases "attempt \<le> MaxRetries cfg")
    case False
    then show ?thesis
      by (simp add: retry_loop.simps [of cfg call toSOL attempt lastErr])
  next
    case True
    from "1.prems" obtain err where err: "call (nat attempt) (Timeout cfg) = Inl err"
      by blast
    let ?sl = "(if attempt < MaxRetries cfg
                then [Sleep (RetryDelay cfg * word_of_int (attempt + 1))] else [])"
    have ih: "attempts_of (snd (retry_loop cfg call toSOL (attempt + 1) (Some err)))
           = replicate (nat (MaxRetries cfg + 1 - (attempt + 1))) (Timeout cfg)
       \<and> sleeps_of (snd (retry_loop cfg call toSOL (attempt + 1) (Some err)))
           = map (\<lambda>k. RetryDelay cfg * word_of_int (int k + 1))
               [nat (attempt + 1) ..< nat (MaxRetries cfg)]
       \<and> fst (fst (retry_loop cfg call toSOL (attempt + 1) (Some err))) = 0
       \<and> (\<exists>e. snd (fst (retry_loop cfg call toSOL (attempt + 1) (Some err)))
                = Some (RetriesExhausted (MaxRetries cfg + 1) e)
              \<and> (attempt + 1 \<le> MaxRetries cfg \<longrightarrow>
                   Inl (the e) = call (nat (MaxRetries cfg)) (Timeout cfg) \<and> e \<noteq> None)
              \<and> (MaxRetries cfg < attempt + 1 \<longrightarrow> e = Some err))"
      using "1.IH" [OF True err refl] "1.prems" by simp
    have unfold: "retry_loop cfg call toSOL attempt lastErr
        = (fst (retry_loop cfg call toSOL (attempt + 1) (Some err)),
           Attempt (Timeout cfg) # ?sl @ snd (retry_loop cfg call toSOL (attempt + 1) (Some err)))"
      using True err
      by (simp add: retry_loop.simps [of cfg call toSOL attempt lastErr] Let_def
          split: prod.splits)
    have sl_app: "sleeps_of (xs @ ys) = sleeps_of xs @ sleeps_of ys" for xs ys
      by (induction xs rule: sleeps_of.induct) simp_all
    have at_app: "attempts_of (xs @ ys) = attempts_of xs @ attempts_of ys" for xs ys
      by (induction xs rule: attempts_of.induct) simp_all
    have a: "attempts_of (snd (retry_loop cfg call toSOL attempt lastErr))
           = replicate (nat (MaxRetries cfg + 1 - attempt)) (Timeout cfg)"
    proof -
      have "nat (MaxRetries cfg + 1 - attempt) = Suc (nat (MaxRetries cfg + 1 - (attempt + 1)))"
        using True by simp
      then show ?thesis
        using ih by (simp add: unfold at_app)
    qed
    have s: "sleeps_of (snd (retry_loop cfg call toSOL attempt lastErr))
           = map (\<lambda>k. RetryDelay cfg * word_of_int (int k + 1))
               [nat attempt ..< nat (MaxRetries cfg)]"
    proof (cases "attempt < MaxRetries cfg")
      case lt: True
      then have "[nat attempt ..< nat (MaxRetries cfg)]
          = nat attempt # [nat (attempt + 1) ..< nat (MaxRetries cfg)]"
        using "1.prems"(2) by (simp add: upt_conv_Cons nat_add_distrib)
      then show ?thesis
        using ih lt "1.prems"(2) by (simp add: unfold sl_app)
    next
      case ge: False
      have "sleeps_of (snd (retry_loop cfg call toSOL attempt lastErr))
          = sleeps_of (snd (retry_loop cfg call toSOL (attempt + 1) (Some err)))"
        using ge by (simp add: unfold sl_app)
      then show ?thesis
        using ih ge by simp
    qed
    have e: "\<exists>e. snd (fst (retry_loop cfg call toSOL attempt lastErr))
                = Some (RetriesExhausted (MaxRetries cfg + 1) e)
              \<and> (attempt \<le> MaxRetries cfg \<longrightarrow>
                   Inl (the e) = call (nat (MaxRetries cfg)) (Timeout cfg) \<and> e \<noteq> None)
              \<and> (MaxRetries cfg < attempt \<longrightarrow> e = lastErr)"
    proof (cases "attempt < MaxRetries cfg")
      case lt: True
      then show ?thesis using ih by (auto simp: unfold)
    next
      case ge: False
      with True have eq: "attempt = MaxRetries cfg" by simp
      have "snd (fst (retry_loop cfg call toSOL attempt lastErr))
          = snd (fst (retry_loop cfg call toSOL (attempt + 1) (Some err)))"
        by (simp add: unfold)
      moreover have "snd (fst (retry_loop cfg call toSOL (attempt + 1) (Some err)))
          = Some (RetriesExhausted (MaxRetries cfg + 1) (Some err))"
        using ih ge by auto
      ultimately show ?thesis
        using err eq by simp
    qed
    from a s e ih show ?thesis by (simp add: unfold)
  qed
qed

text \<open>
  C4, at the default configuration (\<^verbatim>\<open>MaxRetries = 3\<close>, \<^verbatim>\<open>RetryDelay = 1s\<close>, \<^verbatim>\<open>Timeout = 30s\<close>)
  with an upstream that fails every time: the client makes \<open>MaxRetries + 1 = 4\<close> attempts,
  each under the 30s timeout, and returns the value 0 with an error carrying the last
  failure; but it sleeps 1s, 2s and 3s between them, which is a linear and not an
  exponential growth (that would be 1s, 2s, 4s).
\<close>

theorem GetBalance_backoff_is_linear:
  "SolanaClient_GetBalance (\<lambda>address. Inr address)
      (\<lambda>pubKey k timeout. Inl (''rpc failure '' @ [''0123'' ! k]))
      (\<lambda>lamports. uint lamports)
      \<lparr>Timeout = 30 * second, MaxRetries = 3, RetryDelay = second\<rparr>
      ''11111111111111111111111111111112''
    = ((0, Some (RetriesExhausted 4 (Some ''rpc failure 3''))),
       [Attempt (30 * second), Sleep second,
        Attempt (30 * second), Sleep (2 * second),
        Attempt (30 * second), Sleep (3 * second),
        Attempt (30 * second)])
   \<and> \<not> geometric (map sint [second, 2 * second, 3 * second])
   \<and> geometric (map sint [second, 2 * second, 4 * second])"
  by (simp add: SolanaClient_GetBalance_def retry_loop.simps second_def)

section \<open>Properties of the balance service\<close>

lemma Mutex_Unlock_locked:
  "locked h p \<Longrightarrow> Mutex_Unlock h p = Inr (h\<lparr>locked := (locked h)(p := False)\<rparr>)"
  by (simp add: Mutex_Unlock_def)

lemma lookup_step_rpcLog:
  assumes "lookup_step rpc address pc bs = Inr (pc', bs')"
  shows "rpcLog bs' = rpcLog bs
     \<or> (\<exists>p. pc = Locked p \<and> \<not> snd (Cache_Get (cache bs) address (clock bs))
            \<and> pc' = Fetching p (clock bs) (length (rpcLog bs))
            \<and> rpcLog bs' = rpcLog bs @ [address])"
  using assms
  by (cases pc) (auto simp: Let_def split: prod.splits if_splits option.splits sum.splits)

lemma lookup_step_pc:
  assumes "lookup_step rpc address pc bs = Inr (pc', bs')"
  shows "(case pc' of
            Start \<Rightarrow> False
          | NeedMutex t \<Rightarrow> pc = Start \<and> \<not> snd (Cache_Get (cache bs) address (clock bs))
          | WaitLock p t \<Rightarrow> pc = NeedMutex t \<or> pc = WaitLock p t
          | Locked p \<Rightarrow> (\<exists>t. pc = WaitLock p t)
          | Fetching p t n \<Rightarrow> pc = Locked p \<and> \<not> snd (Cache_Get (cache bs) address (clock bs))
          | Done r c \<Rightarrow> True)"
  using assms
  by (cases pc) (auto simp: Let_def split: prod.splits if_splits option.splits sum.splits)

lemma lookup_step_first_miss:
  "\<not> snd (Cache_Get (cache bs) address (clock bs)) \<Longrightarrow>
     lookup_step rpc address Start bs
       = Inr (NeedMutex (clock bs), bs\<lparr>metrics_bs := RecordCacheMiss (metrics_bs bs)\<rparr>)"
  by (cases "Cache_Get (cache bs) address (clock bs)") auto

lemma lookup_step_GetMutex:
  "\<exists>m rm h. GetMutex (requestMutex bs) (mutexHeap bs) address (clock bs) = (m, rm, h)
     \<and> lookup_step rpc address (NeedMutex t) bs
         = Inr (WaitLock m t, bs\<lparr>requestMutex := rm, mutexHeap := h\<rparr>)"
  by (cases "GetMutex (requestMutex bs) (mutexHeap bs) address (clock bs)") simp

lemma lookup_step_Lock_free:
  "\<not> locked (mutexHeap bs) p \<Longrightarrow>
     \<exists>bs2. lookup_step rpc address (WaitLock p t) bs = Inr (Locked p, bs2)
       \<and> locked (mutexHeap bs2) p \<and> rpcLog bs2 = rpcLog bs \<and> cache bs2 = cache bs"
  by (simp add: Mutex_Lock_def)

lemma lookup_step_Lock_blocked:
  "locked (mutexHeap bs) p \<Longrightarrow>
     lookup_step rpc address (WaitLock p t) bs = Inr (WaitLock p t, bs)"
  by (simp add: Mutex_Lock_def)

lemma lookup_step_second_miss:
  "\<not> snd (Cache_Get (cache bs) address (clock bs)) \<Longrightarrow>
     lookup_step rpc address (Locked p) bs
       = Inr (Fetching p (clock bs) (length (rpcLog bs)), bs\<lparr>rpcLog := rpcLog bs @ [address]\<rparr>)"
  by (cases "Cache_Get (cache bs) address (clock bs)") auto

lemma lookup_step_second_hit:
  "Cache_Get (cache bs) address (clock bs) = (v, True) \<Longrightarrow> locked (mutexHeap bs) p \<Longrightarrow>
     \<exists>bs1. lookup_step rpc address (Locked p) bs
               = Inr (Done \<lparr>Address = address, Balance_wb = v, Error = []\<rparr> True, bs1)
         \<and> \<not> locked (mutexHeap bs1) p \<and> rpcLog bs1 = rpcLog bs \<and> cache bs1 = cache bs"
  by (simp add: Mutex_Unlock_locked)

lemma getBalanceWithCache_second_check_hit:
  assumes miss: "\<not> snd (Cache_Get (cache (e1 b0)) address (clock (e1 b0)))"
    and s1: "lookup_step rpc address Start (e1 b0) = Inr (pc1, s1)"
    and s2: "lookup_step rpc address pc1 (e2 s1) = Inr (pc2, s2)"
    and free: "\<forall>m. waits pc2 = Some m \<longrightarrow> \<not> locked (mutexHeap (e3 s2)) m"
    and s3: "lookup_step rpc address pc2 (e3 s2) = Inr (pc3, s3)"
    and held: "\<forall>m. holds pc3 = Some m \<longrightarrow> locked (mutexHeap (e4 s3)) m"
    and hit: "Cache_Get (cache (e4 s3)) address (clock (e4 s3)) = (w, True)"
  shows "\<exists>m s4. pc1 = NeedMutex (clock (e1 b0)) \<and> pc2 = WaitLock m (clock (e1 b0))
       \<and> pc3 = Locked m
       \<and> getBalanceWithCache rpc address [e1, e2, e3, e4] Start b0
           = Some (Inr ((\<lparr>Address = address, Balance_wb = w, Error = []\<rparr>, True), s4))
       \<and> \<not> locked (mutexHeap s4) m
       \<and> rpcLog s1 = rpcLog (e1 b0) \<and> rpcLog s2 = rpcLog (e2 s1)
       \<and> rpcLog s3 = rpcLog (e3 s2) \<and> rpcLog s4 = rpcLog (e4 s3)"
proof -
  from lookup_step_first_miss [OF miss, of rpc] s1
  have pc1: "pc1 = NeedMutex (clock (e1 b0))" and l1: "rpcLog s1 = rpcLog (e1 b0)"
    by auto
  from lookup_step_GetMutex [of "e2 s1" address rpc "clock (e1 b0)"] s2 pc1
  obtain m where pc2: "pc2 = WaitLock m (clock (e1 b0))" and l2: "rpcLog s2 = rpcLog (e2 s1)"
    by auto
  from free pc2 have "\<not> locked (mutexHeap (e3 s2)) m"
    by simp
  from lookup_step_Lock_free [OF this, of rpc address "clock (e1 b0)"] s3 pc2
  have pc3: "pc3 = Locked m" and l3: "rpcLog s3 = rpcLog (e3 s2)"
    by auto
  from held pc3 have "locked (mutexHeap (e4 s3)) m"
    by simp
  from lookup_step_second_hit [OF hit this, of rpc]
  obtain s4 where s4: "lookup_step rpc address (Locked m) (e4 s3)
      = Inr (Done \<lparr>Address = address, Balance_wb = w, Error = []\<rparr> True, s4)"
    and u: "\<not> locked (mutexHeap s4) m" and l4: "rpcLog s4 = rpcLog (e4 s3)"
    by blast
  have "getBalanceWithCache rpc address [e1, e2, e3, e4] Start b0
      = Some (Inr ((\<lparr>Address = address, Balance_wb = w, Error = []\<rparr>, True), s4))"
    using s1 s2 s3 s4 pc1 pc2 pc3 by simp
  with pc1 pc2 pc3 u l1 l2 l3 l4 show ?thesis by blast
qed

text \<open>
  C1. A call of \<^verbatim>\<open>getBalanceWithCache\<close> whose first cache check misses goes on to
  \<^verbatim>\<open>GetMutex\<close> and \<^verbatim>\<open>Lock()\<close> and, holding the lock, checks the cache a second time.
  When this second check finds a live entry, the call returns the cached value as cached,
  with the lock released and without a call of the upstream client: this holds step by
  step, and for the whole call under any interference of other goroutines that lets it
  take the lock. A call of the upstream client is issued only by the step that holds the
  lock and whose cache check misses, and that step is reached only through \<^verbatim>\<open>Lock()\<close>,
  \<^verbatim>\<open>GetMutex\<close> and a miss of the first check.
\<close>

theorem second_check_hit_skips_upstream:
  "(Cache_Get (cache bs) address (clock bs) = (v, True) \<and> locked (mutexHeap bs) p \<longrightarrow>
      (\<exists>bs1. lookup_step rpc address (Locked p) bs
               = Inr (Done \<lparr>Address = address, Balance_wb = v, Error = []\<rparr> True, bs1)
         \<and> \<not> locked (mutexHeap bs1) p \<and> rpcLog bs1 = rpcLog bs \<and> cache bs1 = cache bs))
   \<and> (lookup_step rpc address pc bs = Inr (pc', bs') \<and> rpcLog bs' \<noteq> rpcLog bs \<longrightarrow>
        (\<exists>q. pc = Locked q \<and> \<not> snd (Cache_Get (cache bs) address (clock bs))
           \<and> pc' = Fetching q (clock bs) (length (rpcLog bs))
           \<and> rpcLog bs' = rpcLog bs @ [address]))
   \<and> (lookup_step rpc address pc bs = Inr (Fetching q t n, bs') \<longrightarrow>
        pc = Locked q \<and> \<not> snd (Cache_Get (cache bs) address (clock bs)))
   \<and> (lookup_step rpc address pc bs = Inr (Locked q, bs') \<longrightarrow> (\<exists>t0. pc = WaitLock q t0))
   \<and> (lookup_step rpc address pc bs = Inr (WaitLock q t, bs') \<longrightarrow>
        pc = NeedMutex t \<or> pc = WaitLock q t)
   \<and> (lookup_step rpc address pc bs = Inr (NeedMutex t, bs') \<longrightarrow>
        pc = Start \<and> \<not> snd (Cache_Get (cache bs) address (clock bs)))
   \<and> (\<not> snd (Cache_Get (cache bs) address (clock bs)) \<longrightarrow>
        lookup_step rpc address Start bs
          = Inr (NeedMutex (clock bs), bs\<lparr>metrics_bs := RecordCacheMiss (metrics_bs bs)\<rparr>))
   \<and> (\<exists>m rm h. GetMutex (requestMutex bs) (mutexHeap bs) address (clock bs) = (m, rm, h)
         \<and> lookup_step rpc address (NeedMutex t) bs
             = Inr (WaitLock m t, bs\<lparr>requestMutex := rm, mutexHeap := h\<rparr>))
   \<and> (\<not> locked (mutexHeap bs) p \<longrightarrow>
        (\<exists>bs2. lookup_step rpc address (WaitLock p t) bs = Inr (Locked p, bs2)
           \<and> locked (mutexHeap bs2) p \<and> rpcLog bs2 = rpcLog bs \<and> cache bs2 = cache bs))
   \<and> (locked (mutexHeap bs) p \<longrightarrow>
        lookup_step rpc address (WaitLock p t) bs = Inr (WaitLock p t, bs))
   \<and> (\<not> snd (Cache_Get (cache bs) address (clock bs)) \<longrightarrow>
        lookup_step rpc address (Locked p) bs
          = Inr (Fetching p (clock bs) (length (rpcLog bs)),
                 bs\<lparr>rpcLog := rpcLog bs @ [address]\<rparr>))
   \<and> (\<not> snd (Cache_Get (cache (e1 b0)) address (clock (e1 b0)))
        \<and> lookup_step rpc address Start (e1 b0) = Inr (pc1, s1)
        \<and> lookup_step rpc address pc1 (e2 s1) = Inr (pc2, s2)
        \<and> (\<forall>m. waits pc2 = Some m \<longrightarrow> \<not> locked (mutexHeap (e3 s2)) m)
        \<and> lookup_step rpc address pc2 (e3 s2) = Inr (pc3, s3)
        \<and> (\<forall>m. holds pc3 = Some m \<longrightarrow> locked (mutexHeap (e4 s3)) m)
        \<and> Cache_Get (cache (e4 s3)) address (clock (e4 s3)) = (w, True)
      \<longrightarrow> (\<exists>m s4. pc1 = NeedMutex (clock (e1 b0)) \<and> pc2 = WaitLock m (clock (e1 b0))
             \<and> pc3 = Locked m
             \<and> getBalanceWithCache rpc address [e1, e2, e3, e4] Start b0
                 = Some (Inr ((\<lparr>Address = address, Balance_wb = w, Error = []\<rparr>, True), s4))
             \<and> \<not> locked (mutexHeap s4) m
             \<and> rpcLog s1 = rpcLog (e1 b0) \<and> rpcLog s2 = rpcLog (e2 s1)
             \<and> rpcLog s3 = rpcLog (e3 s2) \<and> rpcLog s4 = rpcLog (e4 s3)))"
proof -
  have a: "Cache_Get (cache bs) address (clock bs) = (v, True) \<and> locked (mutexHeap bs) p \<longrightarrow>
      (\<exists>bs1. lookup_step rpc address (Locked p) bs
               = Inr (Done \<lparr>Address = address, Balance_wb = v, Error = []\<rparr> True, bs1)
         \<and> \<not> locked (mutexHeap bs1) p \<and> rpcLog bs1 = rpcLog bs \<and> cache bs1 = cache bs)"
    using lookup_step_second_hit [of bs address v p rpc] by blast
  have b: "lookup_step rpc address pc bs = Inr (pc', bs') \<and> rpcLog bs' \<noteq> rpcLog bs \<longrightarrow>
        (\<exists>q. pc = Locked q \<and> \<not> snd (Cache_Get (cache bs) address (clock bs))
           \<and> pc' = Fetching q (clock bs) (length (rpcLog bs))
           \<and> rpcLog bs' = rpcLog bs @ [address])"
    using lookup_step_rpcLog [of rpc address pc bs pc' bs'] by blast
  have c: "lookup_step rpc address pc bs = Inr (Fetching q t n, bs') \<longrightarrow>
        pc = Locked q \<and> \<not> snd (Cache_Get (cache bs) address (clock bs))"
    using lookup_step_pc [of rpc address pc bs "Fetching q t n" bs'] by auto
  have d: "lookup_step rpc address pc bs = Inr (Locked q, bs') \<longrightarrow> (\<exists>t0. pc = WaitLock q t0)"
    using lookup_step_pc [of rpc address pc bs "Locked q" bs'] by auto
  have e: "lookup_step rpc address pc bs = Inr (WaitLock q t, bs') \<longrightarrow>
        pc = NeedMutex t \<or> pc = WaitLock q t"
    using lookup_step_pc [of rpc address pc bs "WaitLock q t" bs'] by auto
  have f: "lookup_step rpc address pc bs = Inr (NeedMutex t, bs') \<longrightarrow>
        pc = Start \<and> \<not> snd (Cache_Get (cache bs) address (clock bs))"
    using lookup_step_pc [of rpc address pc bs "NeedMutex t" bs'] by auto
  have g: "\<not> snd (Cache_Get (cache bs) address (clock bs)) \<longrightarrow>
        lookup_step rpc address Start bs
          = Inr (NeedMutex (clock bs), bs\<lparr>metrics_bs := RecordCacheMiss (metrics_bs bs)\<rparr>)"
    using lookup_step_first_miss [of bs address rpc] by blast
  have h: "\<exists>m rm h. GetMutex (requestMutex bs) (mutexHeap bs) address (clock bs) = (m, rm, h)
         \<and> lookup_step rpc address (NeedMutex t) bs
             = Inr (WaitLock m t, bs\<lparr>requestMutex := rm, mutexHeap := h\<rparr>)"
    by (rule lookup_step_GetMutex)
  have i: "\<not> locked (mutexHeap bs) p \<longrightarrow>
        (\<exists>bs2. lookup_step rpc address (WaitLock p t) bs = Inr (Locked p, bs2)
           \<and> locked (mutexHeap bs2) p \<and> rpcLog bs2 = rpcLog bs \<and> cache bs2 = cache bs)"
    using lookup_step_Lock_free [of bs p rpc address t] by blast
  have j: "locked (mutexHeap bs) p \<longrightarrow>
        lookup_step rpc address (WaitLock p t) bs = Inr (WaitLock p t, bs)"
    using lookup_step_Lock_blocked [of bs p rpc address t] by blast
  have k: "\<not> snd (Cache_Get (cache bs) address (clock bs)) \<longrightarrow>
        lookup_step rpc address (Locked p) bs
          = Inr (Fetching p (clock bs) (length (rpcLog bs)),
                 bs\<lparr>rpcLog := rpcLog bs @ [address]\<rparr>)"
    using lookup_step_second_miss [of bs address rpc p] by blast
  have l: "\<not> snd (Cache_Get (cache (e1 b0)) address (clock (e1 b0)))
        \<and> lookup_step rpc address Start (e1 b0) = Inr (pc1, s1)
        \<and> lookup_step rpc address pc1 (e2 s1) = Inr (pc2, s2)
        \<and> (\<forall>m. waits pc2 = Some m \<longrightarrow> \<not> locked (mutexHeap (e3 s2)) m)
        \<and> lookup_step rpc address pc2 (e3 s2) = Inr (pc3, s3)
        \<and> (\<forall>m. holds pc3 = Some m \<longrightarrow> locked (mutexHeap (e4 s3)) m)
        \<and> Cache_Get (cache (e4 s3)) address (clock (e4 s3)) = (w, True)
      \<longrightarrow> (\<exists>m s4. pc1 = NeedMutex (clock (e1 b0)) \<and> pc2 = WaitLock m (clock (e1 b0))
             \<and> pc3 = Locked m
             \<and> getBalanceWithCache rpc address [e1, e2, e3, e4] Start b0
                 = Some (Inr ((\<lparr>Address = address, Balance_wb = w, Error = []\<rparr>, True), s4))
             \<and> \<not> locked (mutexHeap s4) m
             \<and> rpcLog s1 = rpcLog (e1 b0) \<and> rpcLog s2 = rpcLog (e2 s1)
             \<and> rpcLog s3 = rpcLog (e3 s2) \<and> rpcLog s4 = rpcLog (e4 s3))"
    using getBalanceWithCache_second_check_hit [of e1 b0 address rpc pc1 s1 e2 pc2 s2 e3 pc3 s3 e4 w]
    by blast
  show ?thesis
    by (intro conjI a b c d e f g h i j k l)
qed

theorem second_check_hit_skips_upstream_witness:
  "\<exists>s4. getBalanceWithCache (\<lambda>n address. Inl ''unreachable'') ''A''
           [\<lambda>s. s\<lparr>clock := clock s + 1\<rparr>,
            \<lambda>s. s\<lparr>clock := clock s + 1\<rparr>,
            \<lambda>s. s\<lparr>cache := Cache_Set (cache s) ''A'' 42 (clock s + 5),
                   rpcLog := rpcLog s @ [''A''], clock := clock s + 6\<rparr>,
            \<lambda>s. s\<lparr>clock := clock s + 1\<rparr>]
           Start (NewBalanceService 1000 1000 0 :: int BalanceService)
         = Some (Inr ((\<lparr>Address = ''A'', Balance_wb = 42, Error = []\<rparr>, True), s4))
     \<and> rpcLog s4 = [''A''] \<and> \<not> locked (mutexHeap s4) 0"
proof -
  let ?rpc = "\<lambda>(n :: nat) (address :: string). Inl ''unreachable'' :: string + int"
  let ?b0 = "NewBalanceService 1000 1000 0 :: int BalanceService"
  let ?e1 = "\<lambda>s :: int BalanceService. s\<lparr>clock := clock s + 1\<rparr>"
  let ?e3 = "\<lambda>s :: int BalanceService. s\<lparr>cache := Cache_Set (cache s) ''A'' 42 (clock s + 5),
                   rpcLog := rpcLog s @ [''A''], clock := clock s + 6\<rparr>"
  let ?X1 = "lookup_step ?rpc ''A'' Start (?e1 ?b0)"
  let ?pc1 = "fst (projr ?X1)" and ?s1 = "snd (projr ?X1)"
  let ?X2 = "lookup_step ?rpc ''A'' ?pc1 (?e1 ?s1)"
  let ?pc2 = "fst (projr ?X2)" and ?s2 = "snd (projr ?X2)"
  let ?X3 = "lookup_step ?rpc ''A'' ?pc2 (?e3 ?s2)"
  let ?pc3 = "fst (projr ?X3)" and ?s3 = "snd (projr ?X3)"
  note ev = NewBalanceService_def Cache_New_def RequestMutex_New_def Cache_Get_def Cache_Set_def
    GetMutex_def Mutex_new_def Mutex_Lock_def time_Since_def time_Sub_def maxDuration_def
    minDuration_def millisecond_def Let_def
  have miss: "\<not> snd (Cache_Get (cache (?e1 ?b0)) ''A'' (clock (?e1 ?b0)))"
    by (simp add: ev)
  have x1: "?X1 = Inr (?pc1, ?s1)" and p1: "?pc1 = NeedMutex 1"
    by (simp_all add: ev)
  have x2: "?X2 = Inr (?pc2, ?s2)" and p2: "?pc2 = WaitLock 0 1"
    by (simp_all add: ev)
  have free: "\<forall>m. waits ?pc2 = Some m \<longrightarrow> \<not> locked (mutexHeap (?e3 ?s2)) m"
    by (simp add: ev)
  have x3: "?X3 = Inr (?pc3, ?s3)" and p3: "?pc3 = Locked 0"
    by (simp_all add: ev)
  have held: "\<forall>m. holds ?pc3 = Some m \<longrightarrow> locked (mutexHeap (?e1 ?s3)) m"
    by (simp add: ev)
  have hit: "Cache_Get (cache (?e1 ?s3)) ''A'' (clock (?e1 ?s3)) = (42, True)"
    by (simp add: ev)
  have log: "rpcLog (?e1 ?s3) = [''A'']"
    by (simp add: ev)
  note run_hit = second_check_hit_skips_upstream
    [where ?e1.0 = ?e1 and ?e2.0 = ?e1 and ?e3.0 = ?e3 and ?e4.0 = ?e1 and ?b0.0 = ?b0
       and address = "''A''" and rpc = ?rpc and ?pc1.0 = ?pc1 and ?s1.0 = ?s1
       and ?pc2.0 = ?pc2 and ?s2.0 = ?s2 and ?pc3.0 = ?pc3 and ?s3.0 = ?s3 and w = 42,
     THEN conjunct2, THEN conjunct2, THEN conjunct2, THEN conjunct2, THEN conjunct2,
     THEN conjunct2, THEN conjunct2, THEN conjunct2, THEN conjunct2, THEN conjunct2,
     THEN conjunct2, rule_format]
  have "\<exists>m s4. ?pc1 = NeedMutex (clock (?e1 ?b0)) \<and> ?pc2 = WaitLock m (clock (?e1 ?b0))
       \<and> ?pc3 = Locked m
       \<and> getBalanceWithCache ?rpc ''A'' [?e1, ?e1, ?e3, ?e1] Start ?b0
           = Some (Inr ((\<lparr>Address = ''A'', Balance_wb = 42, Error = []\<rparr>, True), s4))
       \<and> \<not> locked (mutexHeap s4) m
       \<and> rpcLog ?s1 = rpcLog (?e1 ?b0) \<and> rpcLog ?s2 = rpcLog (?e1 ?s1)
       \<and> rpcLog ?s3 = rpcLog (?e3 ?s2) \<and> rpcLog s4 = rpcLog (?e1 ?s3)"
    by (rule run_hit) (intro conjI miss x1 x2 free x3 held hit)
  then obtain m s4 where "?pc3 = Locked m"
    and run: "getBalanceWithCache ?rpc ''A'' [?e1, ?e1, ?e3, ?e1] Start ?b0
        = Some (Inr ((\<lparr>Address = ''A'', Balance_wb = 42, Error = []\<rparr>, True), s4))"
    and unl: "\<not> locked (mutexHeap s4) m"
    and l4: "rpcLog s4 = rpcLog (?e1 ?s3)"
    by blast
  with p3 have "m = 0" by simp
  with run unl l4 log show ?thesis by auto
qed

lemma GetMutex_entry:
  "GetMutex rm h address now = (p, rm', h') \<Longrightarrow>
     mutexes rm' address = Some \<lparr>mutex = p, lastAccess = now\<rparr>
     \<and> (\<forall>other. other \<noteq> address \<longrightarrow> mutexes rm' other = mutexes rm other)"
  by (auto simp: GetMutex_def Mutex_new_def split: option.splits)

lemma removeUnused_keeps_recent:
  "mutexes rm address = Some entry \<Longrightarrow> time_Sub now (lastAccess entry) \<le>s cleanupTTL rm \<Longrightarrow>
     mutexes (removeUnused rm h now) address = Some entry"
  by (simp add: removeUnused_def word_sle_eq word_sless_alt)

text \<open>
  C7 (as amended). A lookup whose first cache check misses goes on to \<^verbatim>\<open>GetMutex\<close>, which
  sets the \<^verbatim>\<open>lastAccess\<close> of the key's lock entry to the current time (and creates the
  entry when there is none); an entry so refreshed survives every idle sweep that runs
  within the cleanup TTL of the refresh. A lookup served by the first cache check returns
  without reading or changing the lock registry.
\<close>

theorem lastAccess_refreshed_on_miss_only:
  "(\<not> snd (Cache_Get (cache bs) address (clock bs)) \<longrightarrow>
      (\<exists>bs1. lookup_step rpc address Start bs = Inr (NeedMutex (clock bs), bs1)))
   \<and> (\<exists>p bs2. lookup_step rpc address (NeedMutex t0) bs = Inr (WaitLock p t0, bs2)
         \<and> mutexes (requestMutex bs2) address = Some \<lparr>mutex = p, lastAccess = clock bs\<rparr>
         \<and> (\<forall>now. time_Sub now (clock bs) \<le>s cleanupTTL (requestMutex bs2) \<longrightarrow>
               mutexes (removeUnused (requestMutex bs2) (mutexHeap bs2) now) address
                 = Some \<lparr>mutex = p, lastAccess = clock bs\<rparr>))
   \<and> (snd (Cache_Get (cache bs) address (clock bs)) \<longrightarrow>
        (\<exists>bs3. lookup_step rpc address Start bs
                 = Inr (Done \<lparr>Address = address,
                          Balance_wb = fst (Cache_Get (cache bs) address (clock bs)),
                          Error = []\<rparr> True, bs3)
           \<and> requestMutex bs3 = requestMutex bs \<and> mutexHeap bs3 = mutexHeap bs))"
proof -
  have a: "\<not> snd (Cache_Get (cache bs) address (clock bs)) \<longrightarrow>
      (\<exists>bs1. lookup_step rpc address Start bs = Inr (NeedMutex (clock bs), bs1))"
    by (simp add: Let_def split: prod.splits)
  obtain p rm h where g: "GetMutex (requestMutex bs) (mutexHeap bs) address (clock bs) = (p, rm, h)"
    by (cases "GetMutex (requestMutex bs) (mutexHeap bs) address (clock bs)") auto
  have ttl: "cleanupTTL rm = cleanupTTL (requestMutex bs)"
    using g by (auto simp: GetMutex_def Mutex_new_def split: option.splits)
  have e: "mutexes rm address = Some \<lparr>mutex = p, lastAccess = clock bs\<rparr>"
    using GetMutex_entry [OF g] by simp
  have step: "lookup_step rpc address (NeedMutex t0) bs
      = Inr (WaitLock p t0, bs\<lparr>requestMutex := rm, mutexHeap := h\<rparr>)"
    using g by simp
  have keep: "\<forall>now. time_Sub now (clock bs) \<le>s cleanupTTL rm \<longrightarrow>
      mutexes (removeUnused rm h now) address = Some \<lparr>mutex = p, lastAccess = clock bs\<rparr>"
    using removeUnused_keeps_recent [OF e] by simp
  have b: "\<exists>p bs2. lookup_step rpc address (NeedMutex t0) bs = Inr (WaitLock p t0, bs2)
         \<and> mutexes (requestMutex bs2) address = Some \<lparr>mutex = p, lastAccess = clock bs\<rparr>
         \<and> (\<forall>now. time_Sub now (clock bs) \<le>s cleanupTTL (requestMutex bs2) \<longrightarrow>
               mutexes (removeUnused (requestMutex bs2) (mutexHeap bs2) now) address
                 = Some \<lparr>mutex = p, lastAccess = clock bs\<rparr>)"
    using step e keep by (intro exI [of _ p] exI [of _ "bs\<lparr>requestMutex := rm, mutexHeap := h\<rparr>"]) simp
  have c: "snd (Cache_Get (cache bs) address (clock bs)) \<longrightarrow>
        (\<exists>bs3. lookup_step rpc address Start bs
                 = Inr (Done \<lparr>Address = address,
                          Balance_wb = fst (Cache_Get (cache bs) address (clock bs)),
                          Error = []\<rparr> True, bs3)
           \<and> requestMutex bs3 = requestMutex bs \<and> mutexHeap bs3 = mutexHeap bs)"
    by (simp add: Let_def split: prod.splits)
  from a b c show ?thesis by blast
qed

theorem lastAccess_refreshed_on_miss_only_witness:
  "\<exists>p bs2. lookup_step (\<lambda>n address. Inr 42) ''A'' (NeedMutex 3)
              ((NewBalanceService 1000 50 0 :: int BalanceService)\<lparr>clock := 7\<rparr>)
            = Inr (WaitLock p 3, bs2)
      \<and> mutexes (requestMutex bs2) ''A'' = Some \<lparr>mutex = p, lastAccess = 7\<rparr>
      \<and> mutexes (removeUnused (requestMutex bs2) (mutexHeap bs2) 57) ''A''
           = Some \<lparr>mutex = p, lastAccess = 7\<rparr>"
proof -
  let ?bs = "(NewBalanceService 1000 50 0 :: int BalanceService)\<lparr>clock := 7\<rparr>"
  from lastAccess_refreshed_on_miss_only
    [where bs = ?bs and address = "''A''" and rpc = "\<lambda>n address. Inr 42" and ?t0.0 = 3]
  obtain p bs2 where
    s: "lookup_step (\<lambda>n address. Inr 42) ''A'' (NeedMutex 3) ?bs = Inr (WaitLock p 3, bs2)"
    and e: "mutexes (requestMutex bs2) ''A'' = Some \<lparr>mutex = p, lastAccess = clock ?bs\<rparr>"
    and k: "\<forall>now. time_Sub now (clock ?bs) \<le>s cleanupTTL (requestMutex bs2) \<longrightarrow>
               mutexes (removeUnused (requestMutex bs2) (mutexHeap bs2) now) ''A''
                 = Some \<lparr>mutex = p, lastAccess = clock ?bs\<rparr>"
    by blast
  have "cleanupTTL (requestMutex bs2) = 50"
    using s
    by (auto simp: NewBalanceService_def RequestMutex_New_def GetMutex_def Mutex_new_def
        split: prod.splits)
  then have "time_Sub 57 (clock ?bs) \<le>s cleanupTTL (requestMutex bs2)"
    by (simp add: time_Sub_def maxDuration_def minDuration_def)
  with k have "mutexes (removeUnused (requestMutex bs2) (mutexHeap bs2) 57) ''A''
      = Some \<lparr>mutex = p, lastAccess = clock ?bs\<rparr>"
    by blast
  with s e show ?thesis by auto
qed

text \<open>
  C7 as stated fails on the hit path. The key \<open>A\<close> was fetched at time 0 (cache TTL 1000,
  cleanup TTL 50) and is looked up again at time 100: the lookup is a cache hit, the
  \<^verbatim>\<open>lastAccess\<close> of the lock entry of \<open>A\<close> is still 0, and the idle sweep at that time
  evicts the entry of the key that has just been used.
\<close>

theorem lastAccess_not_refreshed_on_hit_counterexample:
  "lookup_step (\<lambda>n address. Inr 42) ''A'' Start
       ((NewBalanceService 1000 50 0 :: int BalanceService)
          \<lparr>cache := Cache_Set (Cache_New 1000) ''A'' 42 0,
           requestMutex := (RequestMutex_New 50)
             \<lparr>mutexes := [''A'' \<mapsto> \<lparr>mutex = 0, lastAccess = 0\<rparr>]\<rparr>,
           mutexHeap := \<lparr>locked = (\<lambda>_. False), nextMutex = 1\<rparr>,
           rpcLog := [''A''], clock := 100\<rparr>)
     = Inr (Done \<lparr>Address = ''A'', Balance_wb = 42, Error = []\<rparr> True,
            (NewBalanceService 1000 50 0 :: int BalanceService)
              \<lparr>cache := Cache_Set (Cache_New 1000) ''A'' 42 0,
               requestMutex := (RequestMutex_New 50)
                 \<lparr>mutexes := [''A'' \<mapsto> \<lparr>mutex = 0, lastAccess = 0\<rparr>]\<rparr>,
               metrics_bs := RecordCacheHit (NewMetricsCollector 0),
               mutexHeap := \<lparr>locked = (\<lambda>_. False), nextMutex = 1\<rparr>,
               rpcLog := [''A''], clock := 100\<rparr>)
   \<and> mutexes ((RequestMutex_New 50)\<lparr>mutexes := [''A'' \<mapsto> \<lparr>mutex = 0, lastAccess = 0\<rparr>]\<rparr>) ''A''
       = Some \<lparr>mutex = 0, lastAccess = 0\<rparr>
   \<and> mutexes (removeUnused
         ((RequestMutex_New 50)\<lparr>mutexes := [''A'' \<mapsto> \<lparr>mutex = 0, lastAccess = 0\<rparr>]\<rparr>)
         \<lparr>locked = (\<lambda>_. False), nextMutex = 1\<rparr> 100) ''A'' = None"
  by (simp add: NewBalanceService_def Cache_Get_def Cache_Set_def Cache_New_def
      RequestMutex_New_def removeUnused_def Mutex_TryLock_def time_Since_def time_Sub_def
      maxDuration_def minDuration_def)

text \<open>
  C10. With an empty list of addresses \<^verbatim>\<open>GetBalances\<close> returns at once, whatever the
  schedule and the upstream client: the response has no balances and \<^verbatim>\<open>Cached = false\<close>,
  the error is \<^verbatim>\<open>nil\<close>, and the cache, the lock registry, the mutexes and the list of
  upstream calls are as before (only the metrics record the request).
\<close>

theorem GetBalances_empty:
  "\<exists>bs'. GetBalances rpc bs [] sched
           = Some (Inr ((\<lparr>Balances = [], Cached = False\<rparr>, None), bs'))
     \<and> cache bs' = cache bs \<and> requestMutex bs' = requestMutex bs
     \<and> mutexHeap bs' = mutexHeap bs \<and> rpcLog bs' = rpcLog bs"
  by (simp add: GetBalances_def Let_def)

theorem GetBalances_empty_witness:
  "\<exists>bs'. GetBalances (\<lambda>n address. Inl ''unreachable'')
            (NewBalanceService 10 10 0 :: int BalanceService) [] [(Run 0, 5)]
           = Some (Inr ((\<lparr>Balances = [], Cached = False\<rparr>, None), bs'))
     \<and> cache bs' = Cache_New 10 \<and> requestMutex bs' = RequestMutex_New 10
     \<and> rpcLog bs' = []"
  using GetBalances_empty [of "\<lambda>n address. Inl ''unreachable''"
      "NewBalanceService 10 10 0 :: int BalanceService" "[(Run 0, 5)]"]
  by (auto simp: NewBalanceService_def)

section \<open>Properties of a batch\<close>

lemma justified_mono: "justified rpc data0 n0 log a v \<Longrightarrow> justified rpc data0 n0 (log @ xs) a v"
  by (auto simp: justified_def nth_append)

lemma failed_call_mono: "failed_call rpc n0 log a e \<Longrightarrow> failed_call rpc n0 (log @ xs) a e"
  by (auto simp: failed_call_def nth_append)

lemma result_ok_mono: "result_ok rpc data0 n0 log a r \<Longrightarrow> result_ok rpc data0 n0 (log @ xs) a r"
  by (auto simp: result_ok_def justified_mono failed_call_mono split: if_splits)

lemma worker_ok_mono:
  "worker_ok rpc data0 n0 log a bal pc \<Longrightarrow> worker_ok rpc data0 n0 (log @ xs) a bal pc"
  by (cases pc) (auto simp: result_ok_mono nth_append)

lemma Cache_Get_hit:
  "Cache_Get c key now = (v, True) \<Longrightarrow> \<exists>entry. data c key = Some entry \<and> Balance entry = v"
  by (auto simp: Cache_Get_def split: option.splits if_splits)

text \<open>What one step of a lookup does to the log and the cache, and what it yields.\<close>

lemma lookup_step_inv:
  assumes step: "lookup_step rpc a pc bs = Inr (pc', bs')"
    and cache: "\<forall>address entry. data (cache bs) address = Some entry \<longrightarrow>
            justified rpc data0 n0 (rpcLog bs) address (Balance entry)"
    and n0: "n0 \<le> length (rpcLog bs)"
    and ok: "worker_ok rpc data0 n0 (rpcLog bs) a bal pc"
  shows "(\<exists>xs. rpcLog bs' = rpcLog bs @ xs)
     \<and> (\<forall>address entry. data (cache bs') address = Some entry \<longrightarrow>
            justified rpc data0 n0 (rpcLog bs') address (Balance entry))
     \<and> (case pc' of
          Done r c \<Rightarrow> (pc = Done r c \<or> result_ok rpc data0 n0 (rpcLog bs') a r)
        | Fetching p t k \<Rightarrow> n0 \<le> k \<and> k < length (rpcLog bs') \<and> rpcLog bs' ! k = a
        | _ \<Rightarrow> True)"
proof (cases pc)
  case Start
  then show ?thesis
    using step cache
    by (auto simp: Let_def result_ok_def split: prod.splits if_splits dest!: Cache_Get_hit)
next
  case (NeedMutex t)
  then show ?thesis
    using step cache by (auto simp: Let_def split: prod.splits)
next
  case (WaitLock p t)
  then show ?thesis
    using step cache by (auto split: option.splits)
next
  case (Locked p)
  then show ?thesis
    using step cache n0
    by (auto simp: Let_def result_ok_def justified_mono
        split: prod.splits if_splits sum.splits dest!: Cache_Get_hit)
next
  case (Fetching p t k)
  with ok have k: "n0 \<le> k" "k < length (rpcLog bs)" "rpcLog bs ! k = a"
    by simp_all
  show ?thesis
  proof (cases "rpc k a")
    case (Inl err)
    then have "failed_call rpc n0 (rpcLog bs) a err"
      using k by (auto simp: failed_call_def)
    then show ?thesis
      using step cache Fetching Inl
      by (auto simp: Let_def result_ok_def split: sum.splits)
  next
    case (Inr v)
    then have j: "justified rpc data0 n0 (rpcLog bs) a v"
      using k by (auto simp: justified_def)
    then show ?thesis
      using step cache Fetching Inr
      by (auto simp: Let_def result_ok_def Cache_Set_def split: sum.splits if_splits)
  qed
next
  case (Done r c)
  then show ?thesis
    using step cache by auto
qed


lemma worker_step_cases:
  assumes "worker_step rpc addresses i b bs = Inr (b', bs')"
  shows "(b' = b \<and> bs' = bs \<and> \<not> (i < length addresses \<and> \<not> is_Done (workers b ! i)))
     \<or> (i < length addresses \<and> \<not> is_Done (workers b ! i)
        \<and> (\<exists>pc'. lookup_step rpc (addresses ! i) (workers b ! i) bs = Inr (pc', bs')
              \<and> workers b' = (workers b)[i := pc']
              \<and> balances b' = (case pc' of Done r c \<Rightarrow> (balances b)[i := r] | _ \<Rightarrow> balances b)))"
  using assms
  by (auto simp: worker_step_def split: if_splits sum.splits prod.splits lookup.splits)

lemma worker_step_inv:
  assumes step: "worker_step rpc addresses i b bs = Inr (b', bs')"
    and inv: "batch_inv rpc addresses data0 n0 b bs"
  shows "batch_inv rpc addresses data0 n0 b' bs'"
proof -
  from worker_step_cases [OF step] show ?thesis
  proof (elim disjE conjE exE)
    assume "b' = b" "bs' = bs"
    with inv show ?thesis by simp
  next
    fix pc'
    assume i: "i < length addresses" and nd: "\<not> is_Done (workers b ! i)"
      and ls: "lookup_step rpc (addresses ! i) (workers b ! i) bs = Inr (pc', bs')"
      and w: "workers b' = (workers b)[i := pc']"
      and bal: "balances b' = (case pc' of Done r c \<Rightarrow> (balances b)[i := r] | _ \<Rightarrow> balances b)"
    from inv have len: "length (balances b) = length addresses" "length (workers b) = length addresses"
      and n0: "n0 \<le> length (rpcLog bs)"
      and cache: "\<forall>address entry. data (cache bs) address = Some entry \<longrightarrow>
            justified rpc data0 n0 (rpcLog bs) address (Balance entry)"
      and oks: "\<forall>j<length addresses.
            worker_ok rpc data0 n0 (rpcLog bs) (addresses ! j) (balances b ! j) (workers b ! j)"
      by (simp_all add: batch_inv_def)
    from oks i have ok: "worker_ok rpc data0 n0 (rpcLog bs) (addresses ! i) (balances b ! i) (workers b ! i)"
      by blast
    from lookup_step_inv [OF ls cache n0 ok]
    obtain xs where log: "rpcLog bs' = rpcLog bs @ xs"
      and cache': "\<forall>address entry. data (cache bs') address = Some entry \<longrightarrow>
            justified rpc data0 n0 (rpcLog bs') address (Balance entry)"
      and pc': "(case pc' of
          Done r c \<Rightarrow> (workers b ! i = Done r c \<or> result_ok rpc data0 n0 (rpcLog bs') (addresses ! i) r)
        | Fetching p t k \<Rightarrow> n0 \<le> k \<and> k < length (rpcLog bs') \<and> rpcLog bs' ! k = addresses ! i
        | _ \<Rightarrow> True)"
      by blast
    have len': "length (balances b') = length addresses" "length (workers b') = length addresses"
      using len w bal by (auto split: lookup.splits)
    have n0': "n0 \<le> length (rpcLog bs')"
      using n0 log by simp
    have oks': "worker_ok rpc data0 n0 (rpcLog bs') (addresses ! j) (balances b' ! j) (workers b' ! j)"
      if j: "j < length addresses" for j
    proof (cases "j = i")
      case True
      show ?thesis
      proof (cases pc')
        case (Done r c)
        with pc' nd have "result_ok rpc data0 n0 (rpcLog bs') (addresses ! i) r"
          by auto
        then show ?thesis
          using True Done w bal i len by simp
      next
        case (Fetching p t k)
        then show ?thesis
          using True pc' w i len by simp
      qed (use True w i len in simp_all)
    next
      case False
      have "worker_ok rpc data0 n0 (rpcLog bs) (addresses ! j) (balances b ! j) (workers b ! j)"
        using oks j by blast
      then have "worker_ok rpc data0 n0 (rpcLog bs') (addresses ! j) (balances b ! j) (workers b ! j)"
        unfolding log by (rule worker_ok_mono)
      moreover have "balances b' ! j = balances b ! j" "workers b' ! j = workers b ! j"
        using False w bal by (auto split: lookup.splits)
      ultimately show ?thesis by simp
    qed
    from len' n0' cache' oks' show ?thesis
      by (simp add: batch_inv_def)
  qed
qed

lemma batch_step_inv:
  assumes step: "batch_step rpc addresses e b bs = Inr (b', bs')"
    and inv: "batch_inv rpc addresses data0 n0 b bs"
  shows "batch_inv rpc addresses data0 n0 b' bs'"
proof (cases "fst e")
  case (Run i)
  have "batch_inv rpc addresses data0 n0 b (bs\<lparr>clock := clock bs + int (snd e)\<rparr>)"
    using inv by (simp add: batch_inv_def)
  moreover have "worker_step rpc addresses i b (bs\<lparr>clock := clock bs + int (snd e)\<rparr>) = Inr (b', bs')"
    using step Run by (simp add: batch_step_def Let_def)
  ultimately show ?thesis
    by (rule worker_step_inv [rotated])
next
  case SweepCache
  then show ?thesis
    using step inv
    by (auto simp: batch_step_def Let_def batch_inv_def removeExpired_def
        split: if_splits option.splits)
next
  case SweepMutexes
  then show ?thesis
    using step inv
    by (auto simp: batch_step_def Let_def batch_inv_def split: if_splits)
qed

lemma run_batch_inv:
  assumes "run_batch rpc addresses sched b bs = Some (Inr (b', bs'))"
    and "batch_inv rpc addresses data0 n0 b bs"
  shows "batch_inv rpc addresses data0 n0 b' bs' \<and> list_all is_Done (workers b')"
  using assms
proof (induction sched arbitrary: b bs)
  case Nil
  then show ?case by (auto split: if_splits)
next
  case (Cons e es)
  show ?case
  proof (cases "list_all is_Done (workers b)")
    case True
    with Cons.prems show ?thesis by simp
  next
    case False
    with Cons.prems obtain b1 bs1 where s: "batch_step rpc addresses e b bs = Inr (b1, bs1)"
      and r: "run_batch rpc addresses es b1 bs1 = Some (Inr (b', bs'))"
      by (auto split: sum.splits prod.splits)
    from batch_step_inv [OF s Cons.prems(2)] Cons.IH [OF r] show ?thesis by blast
  qed
qed

lemma batch_inv_initial:
  "batch_inv rpc addresses (data (cache bs)) (length (rpcLog bs))
     \<lparr>balances = replicate (length addresses) zeroWalletBalance, allCached = True,
      workers = replicate (length addresses) Start\<rparr>
     (bs\<lparr>metrics_bs := m\<rparr>)"
  by (auto simp: batch_inv_def justified_def)

lemma GetBalances_results:
  assumes "GetBalances rpc bs addresses sched = Some (Inr ((resp, err), bs'))"
  shows "err = None \<and> length (Balances resp) = length addresses
     \<and> (\<forall>i<length addresses.
           result_ok rpc (data (cache bs)) (length (rpcLog bs)) (rpcLog bs') (addresses ! i)
             (Balances resp ! i))"
proof (cases "length addresses = 0")
  case True
  with assms show ?thesis
    by (auto simp: GetBalances_def Let_def)
next
  case False
  let ?b0 = "\<lparr>balances = replicate (length addresses) zeroWalletBalance, allCached = True,
      workers = replicate (length addresses) Start\<rparr> :: 'a batch"
  let ?bs1 = "bs\<lparr>metrics_bs := RecordRequest (metrics_bs bs)\<rparr>"
  from assms False obtain b bs2 where
    r: "run_batch rpc addresses sched ?b0 ?bs1 = Some (Inr (b, bs2))"
    and resp: "resp = \<lparr>Balances = balances b, Cached = allCached b\<rparr>" and err: "err = None"
    and log: "rpcLog bs' = rpcLog bs2"
    by (auto simp: GetBalances_def Let_def split: option.splits sum.splits prod.splits)
  from run_batch_inv [OF r batch_inv_initial]
  have inv: "batch_inv rpc addresses (data (cache bs)) (length (rpcLog bs)) b bs2"
    and fin: "list_all is_Done (workers b)"
    by simp_all
  have "result_ok rpc (data (cache bs)) (length (rpcLog bs)) (rpcLog bs2) (addresses ! i)
             (balances b ! i)" if i: "i < length addresses" for i
  proof -
    from inv i have len: "length (workers b) = length addresses"
      and ok: "worker_ok rpc (data (cache bs)) (length (rpcLog bs)) (rpcLog bs2) (addresses ! i)
          (balances b ! i) (workers b ! i)"
      by (simp_all add: batch_inv_def)
    from fin len i have "is_Done (workers b ! i)"
      by (simp add: list_all_length)
    then obtain r c where "workers b ! i = Done r c"
      by (cases "workers b ! i") auto
    with ok show ?thesis by simp
  qed
  moreover from inv have "length (balances b) = length addresses"
    by (simp add: batch_inv_def)
  ultimately show ?thesis
    using resp err log by simp
qed


lemma lookup_step_no_fault:
  assumes "\<forall>p. holds pc = Some p \<longrightarrow> locked (mutexHeap bs) p"
  shows "lookup_step rpc a pc bs \<noteq> Inl f"
  using assms
  by (cases pc)
    (auto simp: Let_def Mutex_Unlock_def split: prod.splits option.splits sum.splits if_splits)

lemma GetMutex_wf:
  assumes g: "GetMutex rm h a now = (p, rm', h')" and wf: "registry_wf rm h"
  shows "registry_wf rm' h' \<and> nextMutex h \<le> nextMutex h' \<and> p < nextMutex h'
     \<and> (\<forall>q<nextMutex h. locked h' q = locked h q)"
proof (cases "mutexes rm a")
  case None
  with g have eqs: "p = nextMutex h" "nextMutex h' = Suc (nextMutex h)"
      "mutexes rm' = (mutexes rm)(a \<mapsto> \<lparr>mutex = nextMutex h, lastAccess = now\<rparr>)"
      "locked h' = (locked h)(nextMutex h := False)"
    by (auto simp: GetMutex_def Mutex_new_def)
  have "mutex entry < Suc (nextMutex h)" if "mutexes rm' address = Some entry" for address entry
  proof (cases "address = a")
    case True
    with that eqs show ?thesis by auto
  next
    case False
    with that eqs have "mutexes rm address = Some entry" by simp
    with wf have "mutex entry < nextMutex h" by (auto simp: registry_wf_def)
    then show ?thesis by simp
  qed
  then show ?thesis
    using eqs by (auto simp: registry_wf_def)
next
  case (Some entry)
  with g have eqs: "p = mutex entry" "h' = h"
      "mutexes rm' = (mutexes rm)(a \<mapsto> entry\<lparr>lastAccess := now\<rparr>)"
    by (auto simp: GetMutex_def)
  from wf Some have "mutex entry < nextMutex h"
    by (auto simp: registry_wf_def)
  then show ?thesis
    using eqs wf by (auto simp: registry_wf_def)
qed

lemma registry_wf_locked [simp]: "registry_wf rm (h\<lparr>locked := l\<rparr>) = registry_wf rm h"
  by (simp add: registry_wf_def)

lemma lookup_step_mutex:
  assumes step: "lookup_step rpc a pc bs = Inr (pc', bs')"
    and held: "\<forall>p. holds pc = Some p \<longrightarrow> locked (mutexHeap bs) p \<and> p < nextMutex (mutexHeap bs)"
    and wait: "\<forall>p. waits pc = Some p \<longrightarrow> p < nextMutex (mutexHeap bs)"
    and wf: "registry_wf (requestMutex bs) (mutexHeap bs)"
  shows "nextMutex (mutexHeap bs) \<le> nextMutex (mutexHeap bs')
     \<and> registry_wf (requestMutex bs') (mutexHeap bs')
     \<and> (\<forall>q<nextMutex (mutexHeap bs).
           locked (mutexHeap bs') q =
             (if holds pc' = Some q then True
              else if holds pc = Some q then False
              else locked (mutexHeap bs) q))
     \<and> (\<forall>p. holds pc' = Some p \<longrightarrow>
           p < nextMutex (mutexHeap bs')
           \<and> (holds pc = Some p \<or> (waits pc = Some p \<and> \<not> locked (mutexHeap bs) p)))
     \<and> (\<forall>p. waits pc' = Some p \<longrightarrow> p < nextMutex (mutexHeap bs'))"
proof (cases pc)
  case Start
  then show ?thesis
    using step wf by (auto simp: Let_def split: prod.splits if_splits)
next
  case (NeedMutex t)
  then show ?thesis
    using step GetMutex_wf [OF _ wf]
    by (auto simp: Let_def split: prod.splits)
next
  case (WaitLock p t)
  then show ?thesis
    using step wf wait
    by (auto simp: Mutex_Lock_def split: option.splits if_splits)
next
  case (Locked p)
  then show ?thesis
    using step wf held
    by (auto simp: Let_def Mutex_Unlock_def split: prod.splits sum.splits if_splits)
next
  case (Fetching p t k)
  then show ?thesis
    using step wf held
    by (auto simp: Let_def Mutex_Unlock_def split: prod.splits sum.splits if_splits)
next
  case (Done r c)
  then show ?thesis
    using step wf by auto
qed


lemma worker_step_no_fault:
  assumes inv: "mutex_inv b bs" and len: "length (workers b) = length addresses"
  shows "worker_step rpc addresses i b bs \<noteq> Inl f"
proof (cases "i < length addresses \<and> \<not> is_Done (workers b ! i)")
  case False
  then show ?thesis by (auto simp: worker_step_def)
next
  case True
  with inv len have "\<forall>p. holds (workers b ! i) = Some p \<longrightarrow> locked (mutexHeap bs) p"
    by (auto simp: mutex_inv_def)
  then have "lookup_step rpc (addresses ! i) (workers b ! i) bs \<noteq> Inl f"
    by (rule lookup_step_no_fault)
  then show ?thesis
    using True by (auto simp: worker_step_def split: sum.splits prod.splits lookup.splits)
qed

lemma worker_step_mutex:
  assumes step: "worker_step rpc addresses i b bs = Inr (b', bs')"
    and inv: "mutex_inv b bs" and len: "length (workers b) = length addresses"
  shows "mutex_inv b' bs' \<and> length (workers b') = length addresses"
proof -
  from worker_step_cases [OF step] show ?thesis
  proof (elim disjE conjE exE)
    assume "b' = b" "bs' = bs"
    with inv len show ?thesis by simp
  next
    fix pc'
    assume i: "i < length addresses"
      and ls: "lookup_step rpc (addresses ! i) (workers b ! i) bs = Inr (pc', bs')"
      and w: "workers b' = (workers b)[i := pc']"
    let ?h = "mutexHeap bs" and ?h' = "mutexHeap bs'" and ?pc = "workers b ! i"
    let ?n = "length (workers b)"
    from i len have i': "i < ?n" by simp
    from inv have held: "\<And>j p. j < ?n \<Longrightarrow> holds (workers b ! j) = Some p \<Longrightarrow>
          locked ?h p \<and> p < nextMutex ?h
          \<and> (\<forall>k<?n. k \<noteq> j \<longrightarrow> holds (workers b ! k) \<noteq> Some p)"
      and wait: "\<And>j p. j < ?n \<Longrightarrow> waits (workers b ! j) = Some p \<Longrightarrow> p < nextMutex ?h"
      and wf: "registry_wf (requestMutex bs) ?h"
      by (auto simp: mutex_inv_def)
    have h1: "\<forall>p. holds ?pc = Some p \<longrightarrow> locked ?h p \<and> p < nextMutex ?h"
      using held [OF i'] by blast
    have w1: "\<forall>p. waits ?pc = Some p \<longrightarrow> p < nextMutex ?h"
      using wait [OF i'] by blast
    from lookup_step_mutex [OF ls h1 w1 wf]
    have mono: "nextMutex ?h \<le> nextMutex ?h'"
      and wf': "registry_wf (requestMutex bs') ?h'"
      and frame: "\<And>q. q < nextMutex ?h \<Longrightarrow> locked ?h' q =
             (if holds pc' = Some q then True
              else if holds ?pc = Some q then False
              else locked ?h q)"
      and new: "\<And>p. holds pc' = Some p \<Longrightarrow>
           p < nextMutex ?h' \<and> (holds ?pc = Some p \<or> (waits ?pc = Some p \<and> \<not> locked ?h p))"
      and wait': "\<And>p. waits pc' = Some p \<Longrightarrow> p < nextMutex ?h'"
      by blast+
    have lenw: "length (workers b') = ?n"
      using w by simp
    have nth_i: "workers b' ! i = pc'"
      using w i' by simp
    have nth_o: "workers b' ! j = workers b ! j" if "j \<noteq> i" for j
      using w that by simp
    have nobody: "holds (workers b ! k) \<noteq> Some p"
      if new_p: "holds pc' = Some p" and k: "k < ?n" "k \<noteq> i" for p k
    proof
      assume kp: "holds (workers b ! k) = Some p"
      from new [OF new_p] show False
      proof (elim conjE disjE)
        assume "holds ?pc = Some p"
        with held [OF i'] k kp show False by blast
      next
        assume "\<not> locked ?h p"
        with held [OF k(1) kp] show False by blast
      qed
    qed
    have part1: "locked ?h' p \<and> p < nextMutex ?h'
          \<and> (\<forall>k<?n. k \<noteq> j \<longrightarrow> holds (workers b' ! k) \<noteq> Some p)"
      if j: "j < ?n" and hp: "holds (workers b' ! j) = Some p" for j p
    proof (cases "j = i")
      case True
      with hp nth_i have new_p: "holds pc' = Some p" by simp
      from new [OF new_p] h1 w1 have below: "p < nextMutex ?h" by blast
      from frame [OF below] new_p have "locked ?h' p" by simp
      moreover from new [OF new_p] have "p < nextMutex ?h'" by blast
      moreover have "holds (workers b' ! k) \<noteq> Some p" if "k < ?n" "k \<noteq> j" for k
        using nobody [OF new_p that(1)] that(2) True nth_o by simp
      ultimately show ?thesis by blast
    next
      case False
      with hp nth_o have old: "holds (workers b ! j) = Some p" by simp
      from held [OF j old] have lp: "locked ?h p" and below: "p < nextMutex ?h"
        and excl: "\<forall>k<?n. k \<noteq> j \<longrightarrow> holds (workers b ! k) \<noteq> Some p"
        by blast+
      from excl i' False have "holds ?pc \<noteq> Some p" by blast
      with frame [OF below] lp have "locked ?h' p" by simp
      moreover from below mono have "p < nextMutex ?h'" by simp
      moreover have "holds (workers b' ! k) \<noteq> Some p" if k: "k < ?n" "k \<noteq> j" for k
      proof (cases "k = i")
        case True
        show ?thesis
        proof
          assume "holds (workers b' ! k) = Some p"
          with True nth_i have "holds pc' = Some p" by simp
          from nobody [OF this j False] old show False by simp
        qed
      next
        case False
        with excl k nth_o show ?thesis by simp
      qed
      ultimately show ?thesis by blast
    qed
    have part2: "p < nextMutex ?h'" if j: "j < ?n" and wp: "waits (workers b' ! j) = Some p" for j p
    proof (cases "j = i")
      case True
      with wp nth_i wait' show ?thesis by simp
    next
      case False
      with wp nth_o have "waits (workers b ! j) = Some p" by simp
      from wait [OF j this] mono show ?thesis by simp
    qed
    from part1 part2 wf' lenw len show ?thesis
      by (simp add: mutex_inv_def)
  qed
qed

lemma removeUnused_wf: "registry_wf rm h \<Longrightarrow> registry_wf (removeUnused rm h now) h"
  by (auto simp: registry_wf_def removeUnused_def split: option.splits if_splits)

lemma mutex_inv_clock [simp]: "mutex_inv b (bs\<lparr>clock := t\<rparr>) = mutex_inv b bs"
  by (simp add: mutex_inv_def)

lemma batch_step_mutex:
  assumes inv: "mutex_inv b bs" and len: "length (workers b) = length addresses"
  shows "batch_step rpc addresses e b bs \<noteq> Inl f
     \<and> (\<forall>b' bs'. batch_step rpc addresses e b bs = Inr (b', bs') \<longrightarrow>
           mutex_inv b' bs' \<and> length (workers b') = length addresses)"
proof (cases "fst e")
  case (Run i)
  let ?bs1 = "bs\<lparr>clock := clock bs + int (snd e)\<rparr>"
  have inv1: "mutex_inv b ?bs1" using inv by simp
  have eq: "batch_step rpc addresses e b bs = worker_step rpc addresses i b ?bs1"
    using Run by (simp add: batch_step_def Let_def)
  show ?thesis
    unfolding eq using worker_step_no_fault [OF inv1 len] worker_step_mutex [OF _ inv1 len]
    by blast
next
  case SweepCache
  then show ?thesis
    using inv len by (auto simp: batch_step_def Let_def mutex_inv_def)
next
  case SweepMutexes
  then show ?thesis
    using inv len removeUnused_wf
    by (auto simp: batch_step_def Let_def mutex_inv_def)
qed

lemma run_batch_no_fault:
  assumes "mutex_inv b bs" and "length (workers b) = length addresses"
  shows "run_batch rpc addresses sched b bs \<noteq> Some (Inl f)"
  using assms
proof (induction sched arbitrary: b bs)
  case Nil
  then show ?case by simp
next
  case (Cons e es)
  show ?case
  proof (cases "list_all is_Done (workers b)")
    case True
    then show ?thesis by simp
  next
    case False
    have nf: "batch_step rpc addresses e b bs \<noteq> Inl g" for g
      using batch_step_mutex [OF Cons.prems, of rpc e g] by blast
    then obtain b1 bs1 where s: "batch_step rpc addresses e b bs = Inr (b1, bs1)"
      by (cases "batch_step rpc addresses e b bs") auto
    with batch_step_mutex [OF Cons.prems, of rpc e f]
    have "mutex_inv b1 bs1" "length (workers b1) = length addresses"
      by blast+
    with Cons.IH [of b1 bs1] False s show ?thesis by simp
  qed
qed

lemma mutex_inv_initial:
  "registry_wf (requestMutex bs) (mutexHeap bs) \<Longrightarrow>
     mutex_inv \<lparr>balances = bal, allCached = True, workers = replicate n Start\<rparr> (bs\<lparr>metrics_bs := m\<rparr>)"
  by (simp add: mutex_inv_def)

lemma GetBalances_no_fault:
  assumes "registry_wf (requestMutex bs) (mutexHeap bs)"
  shows "GetBalances rpc bs addresses sched \<noteq> Some (Inl f)"
proof -
  have "run_batch rpc addresses sched
      \<lparr>balances = replicate (length addresses) zeroWalletBalance, allCached = True,
       workers = replicate (length addresses) Start\<rparr>
      (bs\<lparr>metrics_bs := RecordRequest (metrics_bs bs)\<rparr>) \<noteq> Some (Inl f)"
    by (rule run_batch_no_fault [OF mutex_inv_initial [OF assms]]) simp
  then show ?thesis
    by (auto simp: GetBalances_def Let_def split: option.splits sum.splits prod.splits)
qed


lemma lookup_step_solo:
  assumes "solo pc (mutexHeap bs)" and "\<not> is_Done pc"
  shows "\<exists>pc' bs'. lookup_step rpc a pc bs = Inr (pc', bs')
     \<and> solo pc' (mutexHeap bs') \<and> steps_left pc' < steps_left pc"
proof (cases pc)
  case Start
  then show ?thesis
    using assms by (auto simp: solo_def Let_def split: prod.splits)
next
  case (NeedMutex t)
  then show ?thesis
    using assms
    by (auto simp: solo_def Let_def GetMutex_def Mutex_new_def split: prod.splits option.splits)
next
  case (WaitLock p t)
  then show ?thesis
    using assms by (auto simp: solo_def Mutex_Lock_def)
next
  case (Locked p)
  then show ?thesis
    using assms by (auto simp: solo_def Let_def Mutex_Unlock_def split: prod.splits)
next
  case (Fetching p t k)
  then show ?thesis
    using assms by (auto simp: solo_def Let_def Mutex_Unlock_def split: sum.splits)
next
  case (Done r c)
  then show ?thesis
    using assms by simp
qed

lemma worker_step_solo:
  assumes s: "solo (workers b ! i) (mutexHeap bs)" and nd: "\<not> is_Done (workers b ! i)"
    and i: "i < length addresses" and len: "length (workers b) = length addresses"
  shows "\<exists>b' bs' pc'. worker_step rpc addresses i b bs = Inr (b', bs')
     \<and> workers b' = (workers b)[i := pc']
     \<and> solo pc' (mutexHeap bs') \<and> steps_left pc' < steps_left (workers b ! i)"
proof -
  from lookup_step_solo [OF s nd, of rpc "addresses ! i"]
  obtain pc' bs' where ls: "lookup_step rpc (addresses ! i) (workers b ! i) bs = Inr (pc', bs')"
    and s': "solo pc' (mutexHeap bs')" and m: "steps_left pc' < steps_left (workers b ! i)"
    by blast
  have "\<exists>b'. worker_step rpc addresses i b bs = Inr (b', bs') \<and> workers b' = (workers b)[i := pc']"
    using ls nd i by (cases pc') (simp_all add: worker_step_def)
  with s' m show ?thesis by blast
qed

lemma run_batch_all_done:
  "list_all is_Done (workers b) \<Longrightarrow> run_batch rpc addresses es b bs = Some (Inr (b, bs))"
  by (cases es) simp_all

lemma run_batch_skip_done:
  assumes "is_Done (workers b ! i)"
  shows "run_batch rpc addresses ((Run i, 0) # es) b bs = run_batch rpc addresses es b bs"
proof (cases "list_all is_Done (workers b)")
  case True
  then show ?thesis by (simp add: run_batch_all_done)
next
  case False
  have "bs\<lparr>clock := clock bs\<rparr> = bs" by simp
  with False assms show ?thesis
    by (simp add: batch_step_def worker_step_def)
qed

lemma run_batch_active:
  assumes "\<not> is_Done (workers b ! i)" and "i < length (workers b)"
  shows "run_batch rpc addresses ((Run i, 0) # es) b bs =
     (case worker_step rpc addresses i b bs of
        Inl f \<Rightarrow> Some (Inl f)
      | Inr (b', bs') \<Rightarrow> run_batch rpc addresses es b' bs')"
proof -
  from assms have "\<not> list_all is_Done (workers b)"
    by (auto simp: list_all_length)
  moreover have "bs\<lparr>clock := clock bs\<rparr> = bs" by simp
  ultimately show ?thesis
    by (simp add: batch_step_def)
qed

lemma run_solo:
  assumes "steps_left (workers b ! i) \<le> k" and "solo (workers b ! i) (mutexHeap bs)"
    and "i < length addresses" and "length (workers b) = length addresses"
  shows "\<exists>b' bs'. (\<forall>es. run_batch rpc addresses (replicate k (Run i, 0) @ es) b bs
                       = run_batch rpc addresses es b' bs')
     \<and> is_Done (workers b' ! i) \<and> (\<forall>q. \<not> locked (mutexHeap bs') q)
     \<and> length (workers b') = length addresses
     \<and> (\<forall>j. j \<noteq> i \<longrightarrow> workers b' ! j = workers b ! j)"
  using assms
proof (induction k arbitrary: b bs)
  case 0
  then have d: "is_Done (workers b ! i)"
    by (cases "workers b ! i") simp_all
  then have "holds (workers b ! i) = None"
    by (cases "workers b ! i") simp_all
  with "0.prems"(2) have "\<forall>q. \<not> locked (mutexHeap bs) q"
    by (simp add: solo_def)
  with d "0.prems" show ?case
    by (intro exI [of _ b] exI [of _ bs]) simp
next
  case (Suc k)
  show ?case
  proof (cases "is_Done (workers b ! i)")
    case True
    then have "steps_left (workers b ! i) \<le> k"
      by (cases "workers b ! i") simp_all
    from Suc.IH [OF this Suc.prems(2,3,4)] obtain b' bs' where
      r: "\<forall>es. run_batch rpc addresses (replicate k (Run i, 0) @ es) b bs
                       = run_batch rpc addresses es b' bs'"
      and rest: "is_Done (workers b' ! i)" "\<forall>q. \<not> locked (mutexHeap bs') q"
        "length (workers b') = length addresses"
        "\<forall>j. j \<noteq> i \<longrightarrow> workers b' ! j = workers b ! j"
      by blast
    have "\<forall>es. run_batch rpc addresses (replicate (Suc k) (Run i, 0) @ es) b bs
                       = run_batch rpc addresses es b' bs'"
      using r run_batch_skip_done [OF True] by simp
    with rest show ?thesis by blast
  next
    case False
    from worker_step_solo [OF Suc.prems(2) False Suc.prems(3,4), of rpc]
    obtain b1 bs1 pc' where ws: "worker_step rpc addresses i b bs = Inr (b1, bs1)"
      and w1: "workers b1 = (workers b)[i := pc']"
      and s1: "solo pc' (mutexHeap bs1)" and m: "steps_left pc' < steps_left (workers b ! i)"
      by blast
    have i1: "i < length (workers b)"
      using Suc.prems by simp
    have nth1: "workers b1 ! i = pc'"
      using w1 i1 by simp
    have a: "steps_left (workers b1 ! i) \<le> k"
      using m Suc.prems(1) nth1 by simp
    have b: "solo (workers b1 ! i) (mutexHeap bs1)"
      using s1 nth1 by simp
    have c: "length (workers b1) = length addresses"
      using w1 Suc.prems(4) by simp
    from Suc.IH [OF a b Suc.prems(3) c] obtain b' bs' where
      r: "\<forall>es. run_batch rpc addresses (replicate k (Run i, 0) @ es) b1 bs1
                       = run_batch rpc addresses es b' bs'"
      and rest: "is_Done (workers b' ! i)" "\<forall>q. \<not> locked (mutexHeap bs') q"
        "length (workers b') = length addresses"
      and others: "\<forall>j. j \<noteq> i \<longrightarrow> workers b' ! j = workers b1 ! j"
      by blast
    have "\<forall>es. run_batch rpc addresses (replicate (Suc k) (Run i, 0) @ es) b bs
                       = run_batch rpc addresses es b' bs'"
      using r run_batch_active [OF False i1, of rpc addresses] ws by simp
    moreover have "\<forall>j. j \<noteq> i \<longrightarrow> workers b' ! j = workers b ! j"
      using others w1 by simp
    ultimately show ?thesis
      using rest by blast
  qed
qed

lemma run_sequential:
  assumes "distinct is" and "\<forall>i\<in>set is. i < length addresses"
    and "\<forall>j<length addresses. if j \<in> set is then workers b ! j = Start else is_Done (workers b ! j)"
    and "\<forall>q. \<not> locked (mutexHeap bs) q" and "length (workers b) = length addresses"
  shows "\<exists>b' bs'. run_batch rpc addresses (concat (map (\<lambda>i. replicate 5 (Run i, 0)) is)) b bs
                   = Some (Inr (b', bs'))"
  using assms
proof (induction "is" arbitrary: b bs)
  case Nil
  then have "list_all is_Done (workers b)"
    by (simp add: list_all_length)
  then show ?case
    by (simp add: run_batch_all_done)
next
  case (Cons i "is")
  have i: "i < length addresses"
    using Cons.prems(2) by simp
  have st: "workers b ! i = Start"
    using Cons.prems(3) i by auto
  have "solo (workers b ! i) (mutexHeap bs)"
    using st Cons.prems(4) by (simp add: solo_def)
  from run_solo [OF _ this i Cons.prems(5), of 5 rpc] st obtain b1 bs1 where
    r: "\<forall>es. run_batch rpc addresses (replicate 5 (Run i, 0) @ es) b bs
                       = run_batch rpc addresses es b1 bs1"
    and d: "is_Done (workers b1 ! i)" and q: "\<forall>q. \<not> locked (mutexHeap bs1) q"
    and len: "length (workers b1) = length addresses"
    and others: "\<forall>j. j \<noteq> i \<longrightarrow> workers b1 ! j = workers b ! j"
    by auto
  have inv: "\<forall>j<length addresses.
      if j \<in> set is then workers b1 ! j = Start else is_Done (workers b1 ! j)"
  proof (intro allI impI)
    fix j assume j: "j < length addresses"
    show "if j \<in> set is then workers b1 ! j = Start else is_Done (workers b1 ! j)"
    proof (cases "j = i")
      case True
      with d Cons.prems(1) show ?thesis by simp
    next
      case False
      with others Cons.prems(3) j show ?thesis by auto
    qed
  qed
  from Cons.IH [OF _ _ inv q len] Cons.prems(1,2) obtain b' bs' where
    "run_batch rpc addresses (concat (map (\<lambda>i. replicate 5 (Run i, 0)) is)) b1 bs1
       = Some (Inr (b', bs'))"
    by auto
  with r show ?case by simp
qed

lemma GetBalances_sequential_returns:
  assumes "\<forall>q. \<not> locked (mutexHeap bs) q"
  shows "\<exists>result. GetBalances rpc bs addresses (sequential (length addresses)) = Some (Inr result)"
proof -
  let ?b0 = "\<lparr>balances = replicate (length addresses) zeroWalletBalance, allCached = True,
      workers = replicate (length addresses) Start\<rparr> :: 'a batch"
  let ?bs1 = "bs\<lparr>metrics_bs := RecordRequest (metrics_bs bs)\<rparr>"
  have "\<exists>b' bs'. run_batch rpc addresses
      (concat (map (\<lambda>i. replicate 5 (Run i, 0)) [0..<length addresses])) ?b0 ?bs1
        = Some (Inr (b', bs'))"
    by (rule run_sequential) (use assms in auto)
  then show ?thesis
    by (auto simp: GetBalances_def Let_def sequential_def)
qed

text \<open>
  The second check at work: two goroutines look up the same cold key, both miss the first
  check, the first to lock fetches the balance and stores it, and the second, once it has
  the lock, finds the entry and returns it as cached. The upstream client is called once.
\<close>

lemma two_cold_callers_one_upstream_call:
  "map_option (map_sum id (\<lambda>(r, bs). (r, rpcLog bs, sint (CacheMisses (metrics (metrics_bs bs))),
       sint (CacheHits (metrics (metrics_bs bs))))))
     (GetBalances (\<lambda>n address. Inr (42 + int n))
        (NewBalanceService 1000 1000 0 :: int BalanceService) [''A'', ''A'']
        [(Run 0, 1), (Run 1, 1), (Run 0, 1), (Run 1, 1), (Run 0, 1), (Run 1, 1), (Run 0, 1),
         (Run 1, 1), (Run 0, 1), (Run 1, 1), (Run 1, 1)])
   = Some (Inr ((\<lparr>Balances =
          [\<lparr>Address = ''A'', Balance_wb = 42, Error = []\<rparr>,
           \<lparr>Address = ''A'', Balance_wb = 42, Error = []\<rparr>],
          Cached = False\<rparr>, None), [''A''], 2, 1))"
  by code_simp

text \<open>
  C3. Whenever \<^verbatim>\<open>GetBalances\<close> returns, under any schedule of its goroutines and of the
  background sweeps, the error is \<^verbatim>\<open>nil\<close>, the result has one element per input address,
  and the element at position \<open>i\<close> carries the address at position \<open>i\<close> and is in order for
  it: either no error and a balance that is justified for that address, or the balance 0
  and the error of a failed upstream call for that very address. So a failure for one
  key shows only in the elements of that key. The call cannot fault when the pointers of
  the registry are allocated mutexes, and it does return: when no mutex is locked at the
  start, the sequential schedule completes.
\<close>

theorem GetBalances_complete_and_isolated:
  "(GetBalances rpc bs addresses sched = Some (Inr ((resp, err), bs')) \<longrightarrow>
      err = None \<and> length (Balances resp) = length addresses
      \<and> (\<forall>i<length addresses.
            result_ok rpc (data (cache bs)) (length (rpcLog bs)) (rpcLog bs') (addresses ! i)
              (Balances resp ! i)))
   \<and> (registry_wf (requestMutex bs) (mutexHeap bs) \<longrightarrow>
        GetBalances rpc bs addresses sched \<noteq> Some (Inl f))
   \<and> ((\<forall>q. \<not> locked (mutexHeap bs) q) \<longrightarrow>
        (\<exists>result. GetBalances rpc bs addresses (sequential (length addresses))
                    = Some (Inr result)))"
  using GetBalances_results [of rpc bs addresses sched resp err bs']
    GetBalances_no_fault [of bs rpc addresses sched f]
    GetBalances_sequential_returns [of bs rpc addresses]
  by blast

theorem GetBalances_complete_and_isolated_witness:
  "(\<exists>bs'. GetBalances (\<lambda>n address. if address = ''B'' then Inl ''timeout'' else Inr 42)
      (NewBalanceService 1000 1000 0 :: int BalanceService) [''A'', ''B'', ''C'']
      [(Run 0, 1), (Run 1, 1), (Run 2, 1), (SweepCache, 1), (Run 1, 1), (Run 0, 1), (Run 2, 1),
       (Run 2, 1), (Run 1, 1), (SweepMutexes, 1), (Run 0, 1), (Run 1, 1), (Run 0, 1), (Run 2, 1),
       (Run 1, 1), (Run 0, 1), (Run 2, 1)]
      = Some (Inr ((\<lparr>Balances =
           [\<lparr>Address = ''A'', Balance_wb = 42, Error = []\<rparr>,
            \<lparr>Address = ''B'', Balance_wb = 0, Error = ''Failed to fetch balance: timeout''\<rparr>,
            \<lparr>Address = ''C'', Balance_wb = 42, Error = []\<rparr>],
           Cached = False\<rparr>, None), bs'))
      \<and> rpcLog bs' = [''B'', ''A'', ''C''])
   \<and> result_ok (\<lambda>n address. if address = ''B'' then Inl ''timeout'' else Inr (42 :: int))
       Map.empty 0 [''B'', ''A'', ''C''] ''B''
       \<lparr>Address = ''B'', Balance_wb = 0, Error = ''Failed to fetch balance: timeout''\<rparr>
   \<and> result_ok (\<lambda>n address. if address = ''B'' then Inl ''timeout'' else Inr (42 :: int))
       Map.empty 0 [''B'', ''A'', ''C''] ''C''
       \<lparr>Address = ''C'', Balance_wb = 42, Error = []\<rparr>
   \<and> GetBalances (\<lambda>n address. if address = ''B'' then Inl ''timeout'' else Inr 42)
      (NewBalanceService 1000 1000 0 :: int BalanceService) [''A'', ''B'', ''C'']
      [(Run 0, 1), (Run 1, 1), (Run 2, 1), (SweepCache, 1), (Run 1, 1), (Run 0, 1), (Run 2, 1),
       (Run 2, 1), (Run 1, 1), (SweepMutexes, 1), (Run 0, 1), (Run 1, 1), (Run 0, 1), (Run 2, 1),
       (Run 1, 1), (Run 0, 1), (Run 2, 1)] \<noteq> Some (Inl UnlockOfUnlockedMutex)
   \<and> (\<exists>result. GetBalances (\<lambda>n address. if address = ''B'' then Inl ''timeout'' else Inr 42)
      (NewBalanceService 1000 1000 0 :: int BalanceService) [''A'', ''B'', ''C''] (sequential 3)
      = Some (Inr result))"
proof -
  let ?rpc = "\<lambda>(n :: nat) address. if address = ''B'' then Inl ''timeout'' else Inr (42 :: int)"
  let ?bs = "NewBalanceService 1000 1000 0 :: int BalanceService"
  let ?addresses = "[''A'', ''B'', ''C'']"
  let ?sched = "[(Run 0, 1), (Run 1, 1), (Run 2, 1), (SweepCache, 1), (Run 1, 1), (Run 0, 1),
       (Run 2, 1), (Run 2, 1), (Run 1, 1), (SweepMutexes, 1), (Run 0, 1), (Run 1, 1), (Run 0, 1),
       (Run 2, 1), (Run 1, 1), (Run 0, 1), (Run 2, 1)] :: schedule"
  let ?resp = "\<lparr>Balances =
           [\<lparr>Address = ''A'', Balance_wb = 42 :: int, Error = []\<rparr>,
            \<lparr>Address = ''B'', Balance_wb = 0, Error = ''Failed to fetch balance: timeout''\<rparr>,
            \<lparr>Address = ''C'', Balance_wb = 42, Error = []\<rparr>],
           Cached = False\<rparr>"
  have run: "map_option (map_sum id (\<lambda>(r, bs). (r, rpcLog bs)))
      (GetBalances ?rpc ?bs ?addresses ?sched)
      = Some (Inr ((?resp, None), [''B'', ''A'', ''C'']))"
    by code_simp
  then obtain bs' where e: "GetBalances ?rpc ?bs ?addresses ?sched = Some (Inr ((?resp, None), bs'))"
    and l: "rpcLog bs' = [''B'', ''A'', ''C'']"
    by (cases "GetBalances ?rpc ?bs ?addresses ?sched") (auto simp: map_sum_def split: sum.splits)
  have wf: "registry_wf (requestMutex ?bs) (mutexHeap ?bs)"
    by (simp add: registry_wf_def NewBalanceService_def RequestMutex_New_def)
  have q: "\<forall>q. \<not> locked (mutexHeap ?bs) q"
    by (simp add: NewBalanceService_def)
  have d: "data (cache ?bs) = Map.empty" "length (rpcLog ?bs) = 0"
    by (simp_all add: NewBalanceService_def Cache_New_def)
  note T = GetBalances_complete_and_isolated [where rpc = ?rpc and bs = ?bs
      and addresses = ?addresses and sched = ?sched and resp = ?resp and err = None
      and bs' = bs' and f = UnlockOfUnlockedMutex]
  from T e have all: "\<forall>i<length ?addresses.
      result_ok ?rpc (data (cache ?bs)) (length (rpcLog ?bs)) (rpcLog bs') (?addresses ! i)
        (Balances ?resp ! i)"
    by blast
  from all [rule_format, of 1] have b: "result_ok ?rpc Map.empty 0 [''B'', ''A'', ''C''] ''B''
       \<lparr>Address = ''B'', Balance_wb = 0, Error = ''Failed to fetch balance: timeout''\<rparr>"
    by (simp add: d l)
  from all [rule_format, of 2] have c: "result_ok ?rpc Map.empty 0 [''B'', ''A'', ''C''] ''C''
       \<lparr>Address = ''C'', Balance_wb = 42, Error = []\<rparr>"
    by (simp add: d l)
  from T wf have nf: "GetBalances ?rpc ?bs ?addresses ?sched \<noteq> Some (Inl UnlockOfUnlockedMutex)"
    by blast
  have len3: "length ?addresses = 3"
    by simp
  from T q have "\<exists>result. GetBalances ?rpc ?bs ?addresses (sequential (length ?addresses))
      = Some (Inr result)"
    by blast
  then have s: "\<exists>result. GetBalances ?rpc ?bs ?addresses (sequential 3) = Some (Inr result)"
    unfolding len3 .
  from e l b c nf s show ?thesis by blast
qed

end
